theory Spec2Isabelle
  imports Main "HOL-Library.AList" "HOL-Library.Word"
begin

section \<open>JSON values, rows, segments and errors\<close>

text \<open>
  A JSON document as \<^verbatim>\<open>json.load\<close> builds it: \<^verbatim>\<open>None\<close>, \<^verbatim>\<open>bool\<close>, \<^verbatim>\<open>int\<close>
  (unbounded), \<^verbatim>\<open>float\<close>, \<^verbatim>\<open>str\<close>, \<^verbatim>\<open>dict\<close> and \<^verbatim>\<open>list\<close>. A \<^verbatim>\<open>dict\<close> keeps
  its insertion order, so an object is an association list; a Python \<^verbatim>\<open>dict\<close> never holds
  a key twice, which is the predicate \<open>wf_json\<close> below. A \<^verbatim>\<open>float\<close> is carried as its
  IEEE-754 binary64 bit pattern and never inspected. A \<^verbatim>\<open>str\<close> is a \<^typ>\<open>string\<close> whose
  characters are read as the code points U+0000 to U+00FF; text beyond that range is
  outside this development.
\<close>

datatype json =
    JNull
  | JBool bool
  | JInt int
  | JNum "64 word"
  | JStr string
  | JObj "(string \<times> json) list"
  | JArr "json list"

text \<open>
  A row of the flat view is the Python tuple \<^verbatim>\<open>(path, type_name, value_marker)\<close>. The
  third component is a Python object: \<^verbatim>\<open>None\<close> (\<^const>\<open>JNull\<close>) for a container with
  children and for a JSON null, the \<^verbatim>\<open>str\<close> \<^verbatim>\<open>"(empty)"\<close> for an empty container, and the
  primitive itself otherwise. The markers are ordinary strings, as in the source.
\<close>

type_synonym row = "string \<times> string \<times> json"

text \<open>A path segment is a \<^verbatim>\<open>str\<close> key or an \<^verbatim>\<open>int\<close> index.\<close>

datatype seg = Key string | Idx int

text \<open>
  Every \<^verbatim>\<open>raise\<close> of the modelled functions, and every exception a builtin raises in
  them, with the data its message reports.
\<close>

datatype pyerror =
    NonIntegerIndex string
      \<comment> \<open>\<^verbatim>\<open>ValueError("Non-integer index in path: ...")\<close>, with the text \<^verbatim>\<open>s[i:j+1]\<close>\<close>
  | EmptyKey string
      \<comment> \<open>\<^verbatim>\<open>ValueError("Empty key in path: ...")\<close>, with \<^verbatim>\<open>path_str\<close>\<close>
  | SubstringNotFound
      \<comment> \<open>the \<^verbatim>\<open>ValueError\<close> of \<^verbatim>\<open>s.index(']', i)\<close> when no bracket closes\<close>
  | InvalidIntLiteral string
      \<comment> \<open>the \<^verbatim>\<open>ValueError\<close> of \<^verbatim>\<open>int(idx_str)\<close>\<close>
  | ExpectedObject string string
      \<comment> \<open>\<^verbatim>\<open>TypeError("Expected object to look up key ..., got ...")\<close>\<close>
  | KeyNotFound string
      \<comment> \<open>\<^verbatim>\<open>KeyError("Key not found: ...")\<close>\<close>
  | ExpectedArray int string
      \<comment> \<open>\<^verbatim>\<open>TypeError("Expected array for index ..., got ...")\<close>\<close>
  | IndexOutOfRange int nat
      \<comment> \<open>\<^verbatim>\<open>IndexError("Index ... out of range (len=...)")\<close>: the index and the length\<close>
  | CannotDeleteRoot
      \<comment> \<open>\<^verbatim>\<open>ValueError("Cannot delete root")\<close>\<close>
  | CannotInsertBeforeRoot
      \<comment> \<open>\<^verbatim>\<open>ValueError("Cannot insert before root")\<close>\<close>
  | BeforeOnlyArray
      \<comment> \<open>\<^verbatim>\<open>ValueError("'before' only works on array elements")\<close>\<close>

fun wf_json :: "json \<Rightarrow> bool" where
  "wf_json (JObj kvs) = (distinct (map fst kvs) \<and> list_all (\<lambda>kv. wf_json (snd kv)) kvs)"
| "wf_json (JArr xs) = list_all wf_json xs"
| "wf_json v = True"

section \<open>Python builtins on strings and integers\<close>

definition digits :: string where
  "digits = ''0123456789''"

definition is_decimal :: "char \<Rightarrow> bool" where
  \<comment> \<open>the regular expression class \<^verbatim>\<open>\d\<close> below U+0100: the ASCII digits\<close>
  "is_decimal c = (c \<in> set digits)"

definition py_isdigit_char :: "char \<Rightarrow> bool" where
  \<comment> \<open>\<^verbatim>\<open>str.isdigit\<close> on one character: the ASCII digits and the superscripts
      U+00B2, U+00B3 and U+00B9\<close>
  "py_isdigit_char c = (is_decimal c \<or> c = CHR 0xB2 \<or> c = CHR 0xB3 \<or> c = CHR 0xB9)"

definition py_isdigit :: "string \<Rightarrow> bool" where
  \<comment> \<open>\<^verbatim>\<open>str.isdigit\<close>: false on the empty string\<close>
  "py_isdigit s = (s \<noteq> [] \<and> list_all py_isdigit_char s)"

definition digit_val :: "char \<Rightarrow> nat" where
  "digit_val c = length (takeWhile (\<lambda>d. d \<noteq> c) digits)"

definition digit_char :: "nat \<Rightarrow> char" where
  "digit_char d = digits ! d"

definition nat_of_digits :: "string \<Rightarrow> nat" where
  "nat_of_digits s = foldl (\<lambda>acc c. 10 * acc + digit_val c) 0 s"

definition py_int :: "string \<Rightarrow> pyerror + int" where
  \<comment> \<open>\<^verbatim>\<open>int(s)\<close> on a string that passed \<^verbatim>\<open>isdigit\<close>: a superscript digit is refused\<close>
  "py_int s =
     (if s \<noteq> [] \<and> list_all is_decimal s then Inr (int (nat_of_digits s))
      else Inl (InvalidIntLiteral s))"

function str_nat :: "nat \<Rightarrow> string" where
  "str_nat n = (if n < 10 then [digit_char n] else str_nat (n div 10) @ [digit_char (n mod 10)])"
  by pat_completeness auto
termination
  by (relation "measure id") auto

declare str_nat.simps [simp del]

definition py_isspace :: "char \<Rightarrow> bool" where
  \<comment> \<open>the characters \<^verbatim>\<open>str.strip\<close> removes, below U+0100\<close>
  "py_isspace c =
     (c \<in> {CHR 0x09, CHR 0x0A, CHR 0x0B, CHR 0x0C, CHR 0x0D, CHR 0x1C, CHR 0x1D, CHR 0x1E,
           CHR 0x1F, CHR 0x20, CHR 0x85, CHR 0xA0})"

definition strip :: "string \<Rightarrow> string" where
  "strip s = rev (dropWhile py_isspace (rev (dropWhile py_isspace s)))"

definition startswith :: "string \<Rightarrow> string \<Rightarrow> bool" where
  "startswith s p = (take (length p) s = p)"

definition py_type_name :: "json \<Rightarrow> string" where
  \<comment> \<open>\<^verbatim>\<open>type(node).__name__\<close>\<close>
  "py_type_name v =
     (case v of JNull \<Rightarrow> ''NoneType'' | JBool _ \<Rightarrow> ''bool'' | JInt _ \<Rightarrow> ''int''
      | JNum _ \<Rightarrow> ''float'' | JStr _ \<Rightarrow> ''str'' | JObj _ \<Rightarrow> ''dict'' | JArr _ \<Rightarrow> ''list'')"

section \<open>The path parser (\<^verbatim>\<open>parse_path\<close>)\<close>

definition skip_dot :: "string \<Rightarrow> string" where
  \<comment> \<open>\<^verbatim>\<open>if i < len(s) and s[i] == '.': i += 1\<close>\<close>
  "skip_dot s = (case s of [] \<Rightarrow> [] | c # cs \<Rightarrow> if c = CHR ''.'' then cs else s)"

definition key_char :: "char \<Rightarrow> bool" where
  \<comment> \<open>\<^verbatim>\<open>s[j] not in ('.', '[')\<close>\<close>
  "key_char c = (c \<noteq> CHR ''.'' \<and> c \<noteq> CHR ''['')"

text \<open>
  The \<^verbatim>\<open>while i < len(s)\<close> loop. The first argument is \<^verbatim>\<open>path_str\<close> (for the message),
  the second is the unread text \<^verbatim>\<open>s[i:]\<close>, the third is \<^verbatim>\<open>segments\<close>.
\<close>

function parse_loop :: "string \<Rightarrow> string \<Rightarrow> seg list \<Rightarrow> pyerror + seg list" where
  "parse_loop path_str [] segments = Inr segments"
| "parse_loop path_str (c # cs) segments =
     (if c = CHR ''['' then
        (if CHR '']'' \<notin> set cs then Inl SubstringNotFound
         else
           (let idx_str = takeWhile (\<lambda>d. d \<noteq> CHR '']'') cs;
                rest = drop (Suc (length idx_str)) cs
            in if \<not> py_isdigit idx_str then Inl (NonIntegerIndex (c # idx_str @ '']''))
               else (case py_int idx_str of
                       Inl e \<Rightarrow> Inl e
                     | Inr n \<Rightarrow> parse_loop path_str (skip_dot rest) (segments @ [Idx n]))))
      else
        (let key = takeWhile key_char (c # cs);
             rest = dropWhile key_char (c # cs)
         in if key = [] then Inl (EmptyKey path_str)
            else parse_loop path_str (skip_dot rest) (segments @ [Key key])))"
  by pat_completeness auto
termination
proof (relation "measure (\<lambda>(p, s, segs). length s)")
  have skip: "length (skip_dot s) \<le> length s" for s
    by (cases s) (auto simp: skip_dot_def)
  show "wf (measure (\<lambda>(p, s, segs). length s))"
    by simp
  show "((path_str, skip_dot rest, segments @ [Idx n]), (path_str, c # cs, segments))
          \<in> measure (\<lambda>(p, s, segs). length s)"
    if "rest = drop (Suc (length idx_str)) cs"
    for path_str c cs segments idx_str rest n
    using that skip [of rest] by simp
  show "((path_str, skip_dot rest, segments @ [Key key]), (path_str, c # cs, segments))
          \<in> measure (\<lambda>(p, s, segs). length s)"
    if "key = takeWhile key_char (c # cs)" and "rest = dropWhile key_char (c # cs)"
      and "key \<noteq> []"
    for path_str c cs segments key rest
  proof -
    have "length key + length rest = length (c # cs)"
      using that(1,2) by (metis length_append takeWhile_dropWhile_id)
    with that(3) have "length rest < length (c # cs)"
      by (cases key) auto
    with skip [of rest] show ?thesis by simp
  qed
qed

definition parse_path :: "string \<Rightarrow> pyerror + seg list" where
  "parse_path path_str =
     (let s = strip path_str
      in if s = ''root'' then Inr []
         else parse_loop path_str
                (if startswith s ''root.'' then drop 5 s
                 else if startswith s ''root['' then drop 4 s
                 else s)
                [])"

text \<open>What a parsed segment looks like: a non-empty key or a non-negative index.\<close>

definition seg_ok :: "seg \<Rightarrow> bool" where
  "seg_ok sg = (case sg of Key k \<Rightarrow> k \<noteq> [] | Idx i \<Rightarrow> 0 \<le> i)"

section \<open>The navigator (\<^verbatim>\<open>navigate\<close>)\<close>

definition py_index :: "json list \<Rightarrow> int \<Rightarrow> nat" where
  \<comment> \<open>the position \<^verbatim>\<open>node[seg]\<close> reads once \<^verbatim>\<open>-len(node) <= seg < len(node)\<close> holds\<close>
  "py_index xs i = nat (if i < 0 then i + int (length xs) else i)"

text \<open>One turn of the \<^verbatim>\<open>for seg in segments\<close> loop, from the current \<^verbatim>\<open>node\<close>.\<close>

definition navigate_step :: "json \<Rightarrow> seg \<Rightarrow> pyerror + json" where
  "navigate_step node sg =
     (case sg of
        Key k \<Rightarrow>
          (case node of
             JObj kvs \<Rightarrow>
               (case map_of kvs k of None \<Rightarrow> Inl (KeyNotFound k) | Some v \<Rightarrow> Inr v)
           | _ \<Rightarrow> Inl (ExpectedObject k (py_type_name node)))
      | Idx i \<Rightarrow>
          (case node of
             JArr xs \<Rightarrow>
               (if \<not> (- int (length xs) \<le> i \<and> i < int (length xs))
                then Inl (IndexOutOfRange i (length xs))
                else Inr (xs ! py_index xs i))
           | _ \<Rightarrow> Inl (ExpectedArray i (py_type_name node))))"

text \<open>
  The loop with its three variables \<^verbatim>\<open>parent\<close>, \<^verbatim>\<open>key\<close> and \<^verbatim>\<open>node\<close>; \<^verbatim>\<open>None\<close> for the
  first two is \<^const>\<open>None\<close>.
\<close>

fun navigate_loop ::
  "json option \<Rightarrow> seg option \<Rightarrow> json \<Rightarrow> seg list \<Rightarrow> pyerror + (json option \<times> seg option \<times> json)"
where
  "navigate_loop parent key node [] = Inr (parent, key, node)"
| "navigate_loop parent key node (sg # segments) =
     (case navigate_step node sg of
        Inl e \<Rightarrow> Inl e
      | Inr node' \<Rightarrow> navigate_loop (Some node) (Some sg) node' segments)"

definition navigate :: "json \<Rightarrow> seg list \<Rightarrow> pyerror + (json option \<times> seg option \<times> json)" where
  "navigate data segments = navigate_loop None None data segments"

section \<open>The flattener (\<^verbatim>\<open>flatten\<close>)\<close>

definition get_type_name :: "json \<Rightarrow> string" where
  "get_type_name data =
     (case data of JNull \<Rightarrow> ''null'' | JBool _ \<Rightarrow> ''boolean'' | JInt _ \<Rightarrow> ''integer''
      | JNum _ \<Rightarrow> ''number'' | JStr _ \<Rightarrow> ''string'' | JObj _ \<Rightarrow> ''object''
      | JArr _ \<Rightarrow> ''array'')"

definition container_marker :: "bool \<Rightarrow> json" where
  \<comment> \<open>\<^verbatim>\<open>None if data else "(empty)"\<close>; the argument says whether the container is empty\<close>
  "container_marker is_empty = (if is_empty then JStr ''(empty)'' else JNull)"

function (sequential) flatten :: "json \<Rightarrow> string \<Rightarrow> bool \<Rightarrow> row list" where
  "flatten (JObj kvs) path root_level =
     (path, ''object'', container_marker (kvs = [])) #
     concat (map (\<lambda>(k, v). flatten v (if root_level then k else path @ ''.'' @ k) False) kvs)"
| "flatten (JArr xs) path root_level =
     (path, ''array'', container_marker (xs = [])) #
     concat (map (\<lambda>(i, v). flatten v (path @ ''['' @ str_nat i @ '']'') False)
               (enumerate 0 xs))"
| "flatten data path root_level = [(path, get_type_name data, data)]"
  by pat_completeness auto
termination
proof (relation "measure (\<lambda>(data, path, root_level). size data)")
  show "wf (measure (\<lambda>(data, path, root_level). size data))"
    by simp
  show "((v, if root_level then k else path @ ''.'' @ k, False), (JObj kvs, path, root_level))
          \<in> measure (\<lambda>(data, path, root_level). size data)"
    if "kv \<in> set kvs" and "(k, v) = kv" for kvs path root_level kv k v
  proof -
    have "size_prod (\<lambda>_. 0) size kv \<le> size_list (size_prod (\<lambda>_. 0) size) kvs"
      using that(1) by (simp add: size_list_estimation')
    with that(2) show ?thesis by auto
  qed
  show "((v, path @ ''['' @ str_nat i @ '']'', False), (JArr xs, path, root_level))
          \<in> measure (\<lambda>(data, path, root_level). size data)"
    if "iv \<in> set (enumerate 0 xs)" and "(i, v) = iv" for xs path root_level iv i v
  proof -
    have "v \<in> set xs"
      using that by (auto simp: in_set_enumerate_eq)
    then have "size v \<le> size_list size xs"
      by (simp add: size_list_estimation')
    then show ?thesis by simp
  qed
qed

definition flatten_root :: "json \<Rightarrow> row list" where
  \<comment> \<open>the call \<^verbatim>\<open>flatten(data)\<close> with the default arguments\<close>
  "flatten_root data = flatten data ''root'' True"

text \<open>
  For the statements about paths. Below a row's path, a longer path continues with a dot or
  an opening bracket (\<open>path_tail\<close>). A document has plain keys when no key of any of its
  objects holds a dot or an opening bracket, the two characters that compose paths; and its
  root keys are fine when no key of a root object is the word \<^verbatim>\<open>root\<close>, the path of the
  root row.
\<close>

definition path_tail :: "string \<Rightarrow> bool" where
  "path_tail s = (s = [] \<or> hd s = CHR ''.'' \<or> hd s = CHR ''['')"

fun plain_keys :: "json \<Rightarrow> bool" where
  "plain_keys (JObj kvs) =
     list_all (\<lambda>kv. list_all key_char (fst kv) \<and> plain_keys (snd kv)) kvs"
| "plain_keys (JArr xs) = list_all plain_keys xs"
| "plain_keys v = True"

definition root_keys_ok :: "json \<Rightarrow> bool" where
  "root_keys_ok data = (case data of JObj kvs \<Rightarrow> ''root'' \<notin> set (map fst kvs) | _ \<Rightarrow> True)"

section \<open>Structural signatures and null inference (\<^verbatim>\<open>sig\<close>, \<^verbatim>\<open>infer_nulls\<close>)\<close>

text \<open>
  \<^verbatim>\<open>re.compile(r'\[\d+\]').sub('[*]', path)\<close>: scanning from the left, an opening
  bracket followed by a non-empty maximal run of digits and a closing bracket is replaced;
  any other character is copied.
\<close>

function sig :: "string \<Rightarrow> string" where
  "sig [] = []"
| "sig (c # cs) =
     (if c = CHR ''['' \<and> takeWhile is_decimal cs \<noteq> []
         \<and> take 1 (dropWhile is_decimal cs) = '']''
      then ''[*]'' @ sig (drop 1 (dropWhile is_decimal cs))
      else c # sig cs)"
  by pat_completeness auto
termination
proof (relation "measure length")
  show "wf (measure length)"
    by simp
  show "(drop 1 (dropWhile is_decimal cs), c # cs) \<in> measure length" for c cs
    using length_dropWhile_le [of is_decimal cs] by simp
  show "(cs, c # cs) \<in> measure length" for c :: char and cs
    by simp
qed

definition record_known :: "row \<Rightarrow> (string \<rightharpoonup> string) \<Rightarrow> (string \<rightharpoonup> string)" where
  \<comment> \<open>the body of the first loop of \<^verbatim>\<open>infer_nulls\<close>\<close>
  "record_known r known =
     (case r of (path, type_name, val) \<Rightarrow>
        if val = JNull \<or> val = JStr ''(empty)'' then known
        else if type_name \<in> {''null'', ''object'', ''array''} then known
        else if known (sig path) = None then known(sig path \<mapsto> type_name)
        else known)"

definition rewrite_null :: "(string \<rightharpoonup> string) \<Rightarrow> row \<Rightarrow> row" where
  \<comment> \<open>the body of the second loop; \<^verbatim>\<open>inferred or "unknown"\<close> also replaces an empty name\<close>
  "rewrite_null known r =
     (case r of (path, type_name, val) \<Rightarrow>
        if type_name = ''null'' \<and> val = JNull then
          (path,
           (case known (sig path) of
              None \<Rightarrow> ''unknown''
            | Some inferred \<Rightarrow> if inferred = [] then ''unknown'' else inferred),
           JStr ''(null)'')
        else (path, type_name, val))"

definition infer_nulls :: "row list \<Rightarrow> row list" where
  "infer_nulls rows = map (rewrite_null (fold record_known rows Map.empty)) rows"

text \<open>
  The rows the first loop records: those it does not skip, that is, the value is neither
  \<^verbatim>\<open>None\<close> nor \<^verbatim>\<open>"(empty)"\<close> and the type is none of \<^verbatim>\<open>null\<close>, \<^verbatim>\<open>object\<close>, \<^verbatim>\<open>array\<close>.
\<close>

definition recordable :: "row \<Rightarrow> bool" where
  "recordable r =
     (case r of (path, type_name, val) \<Rightarrow>
        val \<noteq> JNull \<and> val \<noteq> JStr ''(empty)''
        \<and> type_name \<notin> {''null'', ''object'', ''array''})"

section \<open>Schema reduction (\<^verbatim>\<open>schema_rows\<close>)\<close>

text \<open>The loop of \<^verbatim>\<open>schema_rows\<close>, with its variables \<^verbatim>\<open>seen\<close> and \<^verbatim>\<open>result\<close>.\<close>

fun schema_loop :: "row list \<Rightarrow> (string \<times> string) set \<Rightarrow> row list \<Rightarrow> row list" where
  "schema_loop [] seen result = result"
| "schema_loop ((path, type_name, val) # rows) seen result =
     (let struct_path = sig path; key = (struct_path, type_name)
      in if key \<in> seen then schema_loop rows seen result
         else schema_loop rows (insert key seen)
                (result @
                 [(struct_path, type_name,
                   if val \<notin> {JNull, JStr ''(empty)'', JStr ''(null)''} then JNull else val)]))"

definition schema_rows :: "row list \<Rightarrow> row list" where
  "schema_rows rows = schema_loop rows {} []"

text \<open>
  The pair a reduced row is known by, and the pair \<^verbatim>\<open>key\<close> the loop computes from a row.
\<close>

definition row_key :: "row \<Rightarrow> string \<times> string" where
  "row_key r = (fst r, fst (snd r))"

definition schema_key :: "row \<Rightarrow> string \<times> string" where
  "schema_key r = (sig (fst r), fst (snd r))"

section \<open>Edit operations (\<^verbatim>\<open>apply_del\<close>, \<^verbatim>\<open>apply_before\<close>, \<^verbatim>\<open>deep_merge\<close>, \<^verbatim>\<open>apply_merge\<close>)\<close>

text \<open>
  The operations mutate the container that \<^verbatim>\<open>navigate\<close> returns as \<^verbatim>\<open>parent\<close> and return
  \<^verbatim>\<open>data\<close>. A parsed document is a tree without sharing, so the mutation is the replacement
  of the node at the segments leading to it: \<open>update_at data segments f\<close> walks as
  \<^verbatim>\<open>navigate\<close> does and replaces the node it reaches by \<open>f\<close> of it.
\<close>

fun update_at :: "json \<Rightarrow> seg list \<Rightarrow> (json \<Rightarrow> json) \<Rightarrow> json" where
  "update_at node [] f = f node"
| "update_at node (sg # segments) f =
     (case node of
        JObj kvs \<Rightarrow>
          (case sg of
             Key k \<Rightarrow> JObj (AList.map_entry k (\<lambda>v. update_at v segments f) kvs)
           | Idx i \<Rightarrow> node)
      | JArr xs \<Rightarrow>
          (case sg of
             Idx i \<Rightarrow> JArr (xs[py_index xs i := update_at (xs ! py_index xs i) segments f])
           | Key k \<Rightarrow> node)
      | _ \<Rightarrow> node)"

definition py_pop :: "json list \<Rightarrow> int \<Rightarrow> json list" where
  \<comment> \<open>\<^verbatim>\<open>list.pop(i)\<close> for an index \<^verbatim>\<open>navigate\<close> has accepted\<close>
  "py_pop xs i = take (py_index xs i) xs @ drop (Suc (py_index xs i)) xs"

definition py_insert :: "json list \<Rightarrow> int \<Rightarrow> json \<Rightarrow> json list" where
  \<comment> \<open>\<^verbatim>\<open>list.insert(i, x)\<close>: a negative index counts from the end, and the position is
      clamped to the list\<close>
  "py_insert xs i x =
     (let n = int (length xs);
          j = nat (if i < 0 then max 0 (i + n) else min i n)
      in take j xs @ x # drop j xs)"

definition del_child :: "seg \<Rightarrow> json \<Rightarrow> json" where
  \<comment> \<open>\<^verbatim>\<open>del parent[key]\<close> on a \<^verbatim>\<open>dict\<close>, \<^verbatim>\<open>parent.pop(key)\<close> otherwise; after
      \<^verbatim>\<open>navigate\<close> the key of a \<^verbatim>\<open>dict\<close> is a string and the parent of an index a list\<close>
  "del_child key parent =
     (case parent of
        JObj kvs \<Rightarrow> (case key of Key k \<Rightarrow> JObj (AList.delete k kvs) | Idx i \<Rightarrow> parent)
      | JArr xs \<Rightarrow> (case key of Idx i \<Rightarrow> JArr (py_pop xs i) | Key k \<Rightarrow> parent)
      | _ \<Rightarrow> parent)"

definition apply_del :: "json \<Rightarrow> seg list \<Rightarrow> pyerror + json" where
  "apply_del data segments =
     (if segments = [] then Inl CannotDeleteRoot
      else (case navigate data segments of
              Inl e \<Rightarrow> Inl e
            | Inr (parent, key, node) \<Rightarrow>
                Inr (update_at data (butlast segments) (del_child (last segments)))))"

definition insert_child :: "seg \<Rightarrow> json \<Rightarrow> json \<Rightarrow> json" where
  \<comment> \<open>\<^verbatim>\<open>parent.insert(key, new_val)\<close> on a list\<close>
  "insert_child key new_val parent =
     (case parent of
        JArr xs \<Rightarrow> (case key of Idx i \<Rightarrow> JArr (py_insert xs i new_val) | Key k \<Rightarrow> parent)
      | _ \<Rightarrow> parent)"

definition apply_before :: "json \<Rightarrow> seg list \<Rightarrow> json \<Rightarrow> pyerror + json" where
  "apply_before data segments new_val =
     (if segments = [] then Inl CannotInsertBeforeRoot
      else (case navigate data segments of
              Inl e \<Rightarrow> Inl e
            | Inr (parent, key, node) \<Rightarrow>
                (case parent of
                   Some (JArr xs) \<Rightarrow>
                     Inr (update_at data (butlast segments)
                            (insert_child (last segments) new_val))
                 | _ \<Rightarrow> Inl BeforeOnlyArray)))"

fun deep_merge :: "json \<Rightarrow> json \<Rightarrow> json" where
  "deep_merge (JObj base) (JObj patch) =
     JObj (fold (\<lambda>(k, v) result.
                   AList.update k
                     (case map_of result k of Some b \<Rightarrow> deep_merge b v | None \<Rightarrow> v) result)
             patch base)"
| "deep_merge base patch = patch"

definition apply_merge :: "json \<Rightarrow> seg list \<Rightarrow> json \<Rightarrow> pyerror + json" where
  "apply_merge data segs patch =
     (if segs = [] then Inr (deep_merge data patch)
      else (case navigate data segs of
              Inl e \<Rightarrow> Inl e
            | Inr (parent, key, node) \<Rightarrow>
                Inr (update_at data segs (\<lambda>_. deep_merge node patch))))"

section \<open>The issue-ID utility (\<^verbatim>\<open>next_issue_id\<close>)\<close>

text \<open>
  The directory is what the function reads of it: for a subdirectory name, \<^const>\<open>None\<close>
  when \<^verbatim>\<open>is_dir()\<close> is false, and the names \<^verbatim>\<open>iterdir()\<close> yields otherwise.
\<close>

type_synonym issues_dir = "string \<Rightarrow> string list option"

definition scan_name :: "string \<Rightarrow> nat \<Rightarrow> nat" where
  \<comment> \<open>\<^verbatim>\<open>m = re.match(r"^(\d+)", f.name); if m: max_id = max(max_id, int(m.group(1)))\<close>\<close>
  "scan_name name max_id =
     (let m = takeWhile is_decimal name
      in if m \<noteq> [] then max max_id (nat_of_digits m) else max_id)"

definition scan_subdir :: "issues_dir \<Rightarrow> string \<Rightarrow> nat \<Rightarrow> nat" where
  "scan_subdir issues subdir max_id =
     (case issues subdir of None \<Rightarrow> max_id | Some names \<Rightarrow> fold scan_name names max_id)"

definition format_03d :: "nat \<Rightarrow> string" where
  \<comment> \<open>\<^verbatim>\<open>f"{n:03d}"\<close>: zeros on the left up to a width of three\<close>
  "format_03d n = replicate (3 - length (str_nat n)) CHR ''0'' @ str_nat n"

definition next_issue_id :: "issues_dir \<Rightarrow> string" where
  "next_issue_id issues =
     format_03d (fold (scan_subdir issues) [''open'', ''closed''] 0 + 1)"

text \<open>
  The numbers the scan finds, for the statement of the result: the value of the leading run
  of digits of every name that has one, over \<^verbatim>\<open>open\<close> and then \<^verbatim>\<open>closed\<close>.
\<close>

definition digit_prefixes :: "issues_dir \<Rightarrow> nat list" where
  "digit_prefixes issues =
     concat (map (\<lambda>subdir.
                    case issues subdir of
                      None \<Rightarrow> []
                    | Some names \<Rightarrow>
                        map (\<lambda>name. nat_of_digits (takeWhile is_decimal name))
                          (filter (\<lambda>name. takeWhile is_decimal name \<noteq> []) names))
              [''open'', ''closed''])"

text \<open>The scenario of the specification: two files in \<^verbatim>\<open>open/\<close>, one in \<^verbatim>\<open>closed/\<close>.\<close>

definition example_issues :: issues_dir where
  "example_issues subdir =
     (if subdir = ''open'' then Some [''001-foo'', ''003-bar'']
      else if subdir = ''closed'' then Some [''002-baz'']
      else None)"

section \<open>Decimal numerals\<close>

lemma digit_char_cases: "d < 10 \<Longrightarrow> d \<in> {0, 1, 2, 3, 4, 5, 6, 7, 8, 9::nat}"
  by auto

lemma digit_val_digit_char: "d < 10 \<Longrightarrow> digit_val (digit_char d) = d"
  using digit_char_cases [of d]
  by (auto simp: digit_val_def digit_char_def digits_def)

lemma is_decimal_digit_char: "d < 10 \<Longrightarrow> is_decimal (digit_char d)"
  using digit_char_cases [of d]
  by (auto simp: is_decimal_def digit_char_def digits_def)

lemma nat_of_digits_snoc: "nat_of_digits (s @ [c]) = 10 * nat_of_digits s + digit_val c"
  by (simp add: nat_of_digits_def)

lemma nat_of_digits_str_nat: "nat_of_digits (str_nat n) = n"
proof (induction n rule: str_nat.induct)
  case (1 n)
  show ?case
  proof (cases "n < 10")
    case True
    then show ?thesis
      by (subst str_nat.simps) (simp add: nat_of_digits_def digit_val_digit_char)
  next
    case False
    with 1 have "nat_of_digits (str_nat (n div 10)) = n div 10"
      by simp
    with False show ?thesis
      by (subst str_nat.simps) (simp add: nat_of_digits_snoc digit_val_digit_char)
  qed
qed

lemma str_nat_decimal: "list_all is_decimal (str_nat n)"
proof (induction n rule: str_nat.induct)
  case (1 n)
  then show ?case
    by (subst str_nat.simps) (simp add: is_decimal_digit_char)
qed

lemma str_nat_nonempty: "str_nat n \<noteq> []"
  by (subst str_nat.simps) simp

lemma str_nat_inj: "str_nat m = str_nat n \<Longrightarrow> m = n"
  by (metis nat_of_digits_str_nat)

section \<open>The segments of the parser and the walk of the navigator\<close>

lemma parse_loop_segments:
  "parse_loop path_str s acc = Inr segments \<Longrightarrow> list_all seg_ok acc \<Longrightarrow> list_all seg_ok segments"
proof (induction path_str s acc rule: parse_loop.induct)
  case (1 path_str segments)
  then show ?case by simp
next
  case (2 path_str c cs acc)
  show ?case
  proof (cases "c = CHR ''[''")
    case True
    with "2.prems"(1) obtain n where
      close: "CHR '']'' \<in> set cs"
      and dig: "py_isdigit (takeWhile (\<lambda>d. d \<noteq> CHR '']'') cs)"
      and int: "py_int (takeWhile (\<lambda>d. d \<noteq> CHR '']'') cs) = Inr n"
      and rec: "parse_loop path_str
                  (skip_dot (drop (Suc (length (takeWhile (\<lambda>d. d \<noteq> CHR '']'') cs))) cs))
                  (acc @ [Idx n]) = Inr segments"
      by (auto simp: Let_def split: if_splits sum.splits)
    from int have "0 \<le> n"
      by (auto simp: py_int_def split: if_splits)
    then have "seg_ok (Idx n)"
      by (simp add: seg_ok_def)
    with "2.prems"(2) have ok: "list_all seg_ok (acc @ [Idx n])"
      by simp
    show ?thesis
      by (rule "2.IH"(1) [OF True _ refl refl _ int rec]) (use close dig ok in simp_all)
  next
    case False
    with "2.prems"(1) have
      key: "takeWhile key_char (c # cs) \<noteq> []"
      and rec: "parse_loop path_str (skip_dot (dropWhile key_char (c # cs)))
                  (acc @ [Key (takeWhile key_char (c # cs))]) = Inr segments"
      by (auto simp: Let_def split: if_splits)
    from key have "seg_ok (Key (takeWhile key_char (c # cs)))"
      by (simp add: seg_ok_def)
    with "2.prems"(2) have ok: "list_all seg_ok (acc @ [Key (takeWhile key_char (c # cs))])"
      by simp
    show ?thesis
      by (rule "2.IH"(2) [OF False refl refl _ rec]) (use key ok in simp_all)
  qed
qed

lemma navigate_loop_append:
  "navigate_loop parent key node (pre @ post) =
     (case navigate_loop parent key node pre of
        Inl e \<Rightarrow> Inl e
      | Inr (parent', key', node') \<Rightarrow> navigate_loop parent' key' node' post)"
  by (induction pre arbitrary: parent key node) (auto split: sum.splits)

lemma navigate_loop_KeyNotFound:
  "navigate_loop parent key node segments = Inl (KeyNotFound k) \<Longrightarrow>
     \<exists>pre post parent' key' kvs.
        segments = pre @ Key k # post
        \<and> navigate_loop parent key node pre = Inr (parent', key', JObj kvs)
        \<and> k \<notin> set (map fst kvs)"
proof (induction segments arbitrary: parent key node)
  case Nil
  then show ?case by simp
next
  case (Cons sg segments)
  show ?case
  proof (cases "navigate_step node sg")
    case (Inl e)
    with Cons.prems have e: "e = KeyNotFound k"
      by simp
    with Inl obtain kvs where "sg = Key k" "node = JObj kvs" "map_of kvs k = None"
      by (auto simp: navigate_step_def split: seg.splits json.splits option.splits if_splits)
    then have "sg # segments = [] @ Key k # segments
        \<and> navigate_loop parent key node [] = Inr (parent, key, JObj kvs)
        \<and> k \<notin> set (map fst kvs)"
      by (simp add: map_of_eq_None_iff)
    then show ?thesis by blast
  next
    case (Inr node')
    with Cons.prems have "navigate_loop (Some node) (Some sg) node' segments = Inl (KeyNotFound k)"
      by simp
    from Cons.IH [OF this] obtain pre post parent' key' kvs where
      "segments = pre @ Key k # post"
      "navigate_loop (Some node) (Some sg) node' pre = Inr (parent', key', JObj kvs)"
      "k \<notin> set (map fst kvs)"
      by blast
    with Inr have "sg # segments = (sg # pre) @ Key k # post
        \<and> navigate_loop parent key node (sg # pre) = Inr (parent', key', JObj kvs)
        \<and> k \<notin> set (map fst kvs)"
      by simp
    then show ?thesis by blast
  qed
qed

lemma navigate_loop_IndexOutOfRange:
  "navigate_loop parent key node segments = Inl (IndexOutOfRange i n) \<Longrightarrow>
     \<exists>pre post parent' key' xs.
        segments = pre @ Idx i # post
        \<and> navigate_loop parent key node pre = Inr (parent', key', JArr xs)
        \<and> n = length xs \<and> \<not> (- int (length xs) \<le> i \<and> i < int (length xs))"
proof (induction segments arbitrary: parent key node)
  case Nil
  then show ?case by simp
next
  case (Cons sg segments)
  show ?case
  proof (cases "navigate_step node sg")
    case (Inl e)
    with Cons.prems have e: "e = IndexOutOfRange i n"
      by simp
    with Inl obtain xs where "sg = Idx i" "node = JArr xs" "n = length xs"
      "\<not> (- int (length xs) \<le> i \<and> i < int (length xs))"
      by (auto simp: navigate_step_def split: seg.splits json.splits option.splits if_splits)
    then have "sg # segments = [] @ Idx i # segments
        \<and> navigate_loop parent key node [] = Inr (parent, key, JArr xs)
        \<and> n = length xs \<and> \<not> (- int (length xs) \<le> i \<and> i < int (length xs))"
      by simp
    then show ?thesis by blast
  next
    case (Inr node')
    with Cons.prems have "navigate_loop (Some node) (Some sg) node' segments = Inl (IndexOutOfRange i n)"
      by simp
    from Cons.IH [OF this] obtain pre post parent' key' xs where
      "segments = pre @ Idx i # post"
      "navigate_loop (Some node) (Some sg) node' pre = Inr (parent', key', JArr xs)"
      "n = length xs" "\<not> (- int (length xs) \<le> i \<and> i < int (length xs))"
      by blast
    with Inr have "sg # segments = (sg # pre) @ Idx i # post
        \<and> navigate_loop parent key node (sg # pre) = Inr (parent', key', JArr xs)
        \<and> n = length xs \<and> \<not> (- int (length xs) \<le> i \<and> i < int (length xs))"
      by simp
    then show ?thesis by blast
  qed
qed

section \<open>Claims about the path parser and the navigator\<close>

lemmas parse_eval = parse_path_def strip_def py_isspace_def startswith_def skip_dot_def
  key_char_def py_isdigit_def py_isdigit_char_def is_decimal_def digits_def py_int_def
  nat_of_digits_def digit_val_def

text \<open>
  C8. The path parser returns \<^verbatim>\<open>["users", 0, "name"]\<close> on \<^verbatim>\<open>"users[0].name"\<close>, the empty
  segment list on \<^verbatim>\<open>"root"\<close>, and \<^verbatim>\<open>[0, "key"]\<close> on \<^verbatim>\<open>"root[0].key"\<close>.
\<close>

theorem parse_path_examples:
  "parse_path ''users[0].name'' = Inr [Key ''users'', Idx 0, Key ''name'']
   \<and> parse_path ''root'' = Inr []
   \<and> parse_path ''root[0].key'' = Inr [Idx 0, Key ''key'']"
  by (simp add: parse_eval)

text \<open>
  C10. Whenever \<^verbatim>\<open>parse_path\<close> succeeds, every string segment of its result is non-empty
  and every integer segment is non-negative; so on such an index the navigator's step over
  an array is the plain zero-based lookup: it succeeds exactly when the index is below the
  length and reads that position, and the branch for negative indices is never taken.
\<close>

theorem parse_path_segments:
  assumes "parse_path path_str = Inr segments"
  shows "\<forall>sg \<in> set segments.
           case sg of
             Key k \<Rightarrow> k \<noteq> []
           | Idx i \<Rightarrow>
               0 \<le> i \<and>
               (\<forall>xs. navigate_step (JArr xs) (Idx i) =
                  (if i < int (length xs) then Inr (xs ! nat i)
                   else Inl (IndexOutOfRange i (length xs))))"
proof -
  have "list_all seg_ok segments"
  proof (cases "strip path_str = ''root''")
    case True
    with assms show ?thesis
      by (simp add: parse_path_def)
  next
    case False
    with assms obtain s where "parse_loop path_str s [] = Inr segments"
      by (auto simp: parse_path_def Let_def split: if_splits)
    then show ?thesis
      by (rule parse_loop_segments) simp
  qed
  then have ok: "seg_ok sg" if "sg \<in> set segments" for sg
    using that by (simp add: list_all_iff)
  show ?thesis
  proof
    fix sg
    assume "sg \<in> set segments"
    then have "seg_ok sg"
      by (rule ok)
    then show "case sg of
             Key k \<Rightarrow> k \<noteq> []
           | Idx i \<Rightarrow>
               0 \<le> i \<and>
               (\<forall>xs. navigate_step (JArr xs) (Idx i) =
                  (if i < int (length xs) then Inr (xs ! nat i)
                   else Inl (IndexOutOfRange i (length xs))))"
      by (cases sg) (auto simp: seg_ok_def navigate_step_def py_index_def)
  qed
qed

theorem parse_path_segments_witness:
  "parse_path ''tags[2]'' = Inr [Key ''tags'', Idx 2]
   \<and> navigate_step (JArr [JInt 7, JInt 8, JInt 9]) (Idx 2) = Inr (JInt 9)
   \<and> navigate_step (JArr [JInt 7]) (Idx 2) = Inl (IndexOutOfRange 2 1)"
proof -
  have p: "parse_path ''tags[2]'' = Inr [Key ''tags'', Idx 2]"
    by (simp add: parse_eval)
  from parse_path_segments [OF p]
  have "\<forall>xs. navigate_step (JArr xs) (Idx 2) =
          (if 2 < int (length xs) then Inr (xs ! nat 2)
           else Inl (IndexOutOfRange 2 (length xs)))"
    by simp
  then have "navigate_step (JArr [JInt 7, JInt 8, JInt 9]) (Idx 2) = Inr (JInt 9)"
    and "navigate_step (JArr [JInt 7]) (Idx 2) = Inl (IndexOutOfRange 2 1)"
    by (simp_all add: numeral_2_eq_2)
  with p show ?thesis by simp
qed

lemma navigate_walk:
  "(navigate data segments = Inl (KeyNotFound k) \<longleftrightarrow>
      (\<exists>pre post parent key kvs.
          segments = pre @ Key k # post
          \<and> navigate data pre = Inr (parent, key, JObj kvs)
          \<and> k \<notin> set (map fst kvs)))
   \<and> (navigate data segments = Inl (IndexOutOfRange i n) \<longleftrightarrow>
      (\<exists>pre post parent key xs.
          segments = pre @ Idx i # post
          \<and> navigate data pre = Inr (parent, key, JArr xs)
          \<and> n = length xs \<and> \<not> (- int (length xs) \<le> i \<and> i < int (length xs))))
   \<and> (\<forall>pre parent key xs.
        navigate data pre = Inr (parent, key, JArr xs)
        \<and> - int (length xs) \<le> i \<and> i < int (length xs) \<longrightarrow>
        navigate data (pre @ [Idx i]) =
          Inr (Some (JArr xs), Some (Idx i),
               xs ! nat (if i < 0 then i + int (length xs) else i)))
   \<and> (\<forall>pre parent key kvs v.
        navigate data pre = Inr (parent, key, JObj kvs) \<and> map_of kvs k = Some v \<longrightarrow>
        navigate data (pre @ [Key k]) = Inr (Some (JObj kvs), Some (Key k), v))"
proof (intro conjI iffI allI impI)
  assume "navigate data segments = Inl (KeyNotFound k)"
  then show "\<exists>pre post parent key kvs.
          segments = pre @ Key k # post
          \<and> navigate data pre = Inr (parent, key, JObj kvs)
          \<and> k \<notin> set (map fst kvs)"
    unfolding navigate_def by (rule navigate_loop_KeyNotFound)
next
  assume "\<exists>pre post parent key kvs.
          segments = pre @ Key k # post
          \<and> navigate data pre = Inr (parent, key, JObj kvs)
          \<and> k \<notin> set (map fst kvs)"
  then obtain pre post parent key kvs where
    "segments = pre @ Key k # post" "navigate data pre = Inr (parent, key, JObj kvs)"
    "map_of kvs k = None"
    by (auto simp: map_of_eq_None_iff)
  then show "navigate data segments = Inl (KeyNotFound k)"
    by (simp add: navigate_def navigate_loop_append navigate_step_def)
next
  assume "navigate data segments = Inl (IndexOutOfRange i n)"
  then show "\<exists>pre post parent key xs.
          segments = pre @ Idx i # post
          \<and> navigate data pre = Inr (parent, key, JArr xs)
          \<and> n = length xs \<and> \<not> (- int (length xs) \<le> i \<and> i < int (length xs))"
    unfolding navigate_def by (rule navigate_loop_IndexOutOfRange)
next
  assume "\<exists>pre post parent key xs.
          segments = pre @ Idx i # post
          \<and> navigate data pre = Inr (parent, key, JArr xs)
          \<and> n = length xs \<and> \<not> (- int (length xs) \<le> i \<and> i < int (length xs))"
  then obtain pre post parent key xs where
    "segments = pre @ Idx i # post" "navigate data pre = Inr (parent, key, JArr xs)"
    "n = length xs" "\<not> (- int (length xs) \<le> i \<and> i < int (length xs))"
    by blast
  then show "navigate data segments = Inl (IndexOutOfRange i n)"
    by (simp add: navigate_def navigate_loop_append navigate_step_def)
next
  fix pre parent key xs
  assume "navigate data pre = Inr (parent, key, JArr xs)
        \<and> - int (length xs) \<le> i \<and> i < int (length xs)"
  then show "navigate data (pre @ [Idx i]) =
          Inr (Some (JArr xs), Some (Idx i),
               xs ! nat (if i < 0 then i + int (length xs) else i))"
    by (simp add: navigate_def navigate_loop_append navigate_step_def py_index_def)
next
  fix pre parent key kvs v
  assume "navigate data pre = Inr (parent, key, JObj kvs) \<and> map_of kvs k = Some v"
  then show "navigate data (pre @ [Key k]) = Inr (Some (JObj kvs), Some (Key k), v)"
    by (simp add: navigate_def navigate_loop_append navigate_step_def)
qed

lemma navigate_root: "navigate data [] = Inr (None, None, data)"
  by (simp add: navigate_def)

lemma navigate_error_prefix:
  "navigate data pre = Inl e \<Longrightarrow> navigate data (pre @ post) = Inl e"
  by (simp add: navigate_def navigate_loop_append)

lemma navigate_last:
  "navigate data pre = Inr (parent, key, node) \<Longrightarrow>
   navigate data (pre @ [sg]) =
     (case navigate_step node sg of
        Inl e \<Rightarrow> Inl e
      | Inr child \<Rightarrow> Inr (Some node, Some sg, child))"
  by (simp add: navigate_def navigate_loop_append split: sum.split)

text \<open>
  C3. The walk starts at the document: the empty segment list yields the document itself.
  Walking any segment list over any value, the navigator fails with the key-not-found error
  for \<open>k\<close> exactly when the walk reaches an object that lacks the string segment \<open>k\<close>;
  it fails with the index-out-of-range error reporting \<open>i\<close> and \<open>n\<close> exactly when the
  walk reaches an array of length \<open>n\<close> with an integer segment \<open>i\<close> outside
  \<open>-n \<le> i < n\<close>. Over an array of length \<open>n\<close>, the step with an integer segment \<open>i\<close>
  succeeds exactly when \<open>-n \<le> i < n\<close>, reading position \<open>i\<close>, or \<open>i + n\<close> for a
  negative \<open>i\<close>, and otherwise fails with that error; over an object, the step with a
  string segment yields the value of the key, or fails with the key-not-found error when the
  key is absent. This holds at the root and after every walk that succeeded; a walk that
  failed stays failed under further segments, and a segment of the wrong kind for the node
  reached fails with the wrong-container error.
\<close>

theorem navigate_errors:
  "navigate data [] = Inr (None, None, data)
   \<and> (navigate data segments = Inl (KeyNotFound k) \<longleftrightarrow>
      (\<exists>pre post parent key kvs.
          segments = pre @ Key k # post
          \<and> navigate data pre = Inr (parent, key, JObj kvs)
          \<and> k \<notin> set (map fst kvs)))
   \<and> (navigate data segments = Inl (IndexOutOfRange i n) \<longleftrightarrow>
      (\<exists>pre post parent key xs.
          segments = pre @ Idx i # post
          \<and> navigate data pre = Inr (parent, key, JArr xs)
          \<and> n = length xs \<and> \<not> (- int (length xs) \<le> i \<and> i < int (length xs))))
   \<and> (\<forall>pre parent key xs.
        navigate data pre = Inr (parent, key, JArr xs)
        \<and> - int (length xs) \<le> i \<and> i < int (length xs) \<longrightarrow>
        navigate data (pre @ [Idx i]) =
          Inr (Some (JArr xs), Some (Idx i),
               xs ! nat (if i < 0 then i + int (length xs) else i)))
   \<and> (\<forall>pre parent key kvs v.
        navigate data pre = Inr (parent, key, JObj kvs) \<and> map_of kvs k = Some v \<longrightarrow>
        navigate data (pre @ [Key k]) = Inr (Some (JObj kvs), Some (Key k), v))
   \<and> navigate (JArr xs) [Idx i] =
       (if - int (length xs) \<le> i \<and> i < int (length xs)
        then Inr (Some (JArr xs), Some (Idx i),
                  xs ! nat (if i < 0 then i + int (length xs) else i))
        else Inl (IndexOutOfRange i (length xs)))
   \<and> navigate (JObj kvs) [Key k] =
       (case map_of kvs k of
          None \<Rightarrow> Inl (KeyNotFound k)
        | Some v \<Rightarrow> Inr (Some (JObj kvs), Some (Key k), v))
   \<and> (\<forall>pre post e. navigate data pre = Inl e \<longrightarrow> navigate data (pre @ post) = Inl e)
   \<and> (\<forall>pre parent key xs.
        navigate data pre = Inr (parent, key, JArr xs)
        \<and> \<not> (- int (length xs) \<le> i \<and> i < int (length xs)) \<longrightarrow>
        navigate data (pre @ [Idx i]) = Inl (IndexOutOfRange i (length xs)))
   \<and> (\<forall>pre parent key kvs.
        navigate data pre = Inr (parent, key, JObj kvs) \<and> k \<notin> set (map fst kvs) \<longrightarrow>
        navigate data (pre @ [Key k]) = Inl (KeyNotFound k))
   \<and> (\<forall>pre parent key node.
        navigate data pre = Inr (parent, key, node) \<and> (\<forall>kvs. node \<noteq> JObj kvs) \<longrightarrow>
        navigate data (pre @ [Key k]) = Inl (ExpectedObject k (py_type_name node)))
   \<and> (\<forall>pre parent key node.
        navigate data pre = Inr (parent, key, node) \<and> (\<forall>xs. node \<noteq> JArr xs) \<longrightarrow>
        navigate data (pre @ [Idx i]) = Inl (ExpectedArray i (py_type_name node)))"
proof -
  have arr: "navigate (JArr xs) [Idx i] =
       (if - int (length xs) \<le> i \<and> i < int (length xs)
        then Inr (Some (JArr xs), Some (Idx i),
                  xs ! nat (if i < 0 then i + int (length xs) else i))
        else Inl (IndexOutOfRange i (length xs)))"
    using navigate_last [OF navigate_root, of "JArr xs" "Idx i"]
    by (simp add: navigate_step_def py_index_def)
  have obj: "navigate (JObj kvs) [Key k] =
       (case map_of kvs k of
          None \<Rightarrow> Inl (KeyNotFound k)
        | Some v \<Rightarrow> Inr (Some (JObj kvs), Some (Key k), v))"
    using navigate_last [OF navigate_root, of "JObj kvs" "Key k"]
    by (simp add: navigate_step_def split: option.split)
  have err: "\<forall>pre post e. navigate data pre = Inl e \<longrightarrow> navigate data (pre @ post) = Inl e"
    by (simp add: navigate_error_prefix)
  have out: "\<forall>pre parent key xs.
        navigate data pre = Inr (parent, key, JArr xs)
        \<and> \<not> (- int (length xs) \<le> i \<and> i < int (length xs)) \<longrightarrow>
        navigate data (pre @ [Idx i]) = Inl (IndexOutOfRange i (length xs))"
    by (auto simp: navigate_last navigate_step_def)
  have missing: "\<forall>pre parent key kvs.
        navigate data pre = Inr (parent, key, JObj kvs) \<and> k \<notin> set (map fst kvs) \<longrightarrow>
        navigate data (pre @ [Key k]) = Inl (KeyNotFound k)"
    by (auto simp: navigate_last navigate_step_def map_of_eq_None_iff [symmetric]
        simp del: map_of_eq_None_iff)
  have no_obj: "\<forall>pre parent key node.
        navigate data pre = Inr (parent, key, node) \<and> (\<forall>kvs. node \<noteq> JObj kvs) \<longrightarrow>
        navigate data (pre @ [Key k]) = Inl (ExpectedObject k (py_type_name node))"
    by (auto simp: navigate_last navigate_step_def split: json.split)
  have no_arr: "\<forall>pre parent key node.
        navigate data pre = Inr (parent, key, node) \<and> (\<forall>xs. node \<noteq> JArr xs) \<longrightarrow>
        navigate data (pre @ [Idx i]) = Inl (ExpectedArray i (py_type_name node))"
    by (auto simp: navigate_last navigate_step_def split: json.split)
  from navigate_root [of data] navigate_walk [of data segments k i n]
    arr obj err out missing no_obj no_arr
  show ?thesis
    by (intro conjI) (erule conjunct1 | erule conjunct2 | assumption | blast)+
qed

theorem navigate_errors_witness:
  "navigate (JArr [JInt 1, JInt 2, JInt 3]) [Idx 5] = Inl (IndexOutOfRange 5 3)
   \<and> navigate (JArr [JInt 1, JInt 2, JInt 3]) [Idx (- 1)] =
       Inr (Some (JArr [JInt 1, JInt 2, JInt 3]), Some (Idx (- 1)), JInt 3)
   \<and> navigate (JObj [(''a'', JInt 1)]) [Key ''b''] = Inl (KeyNotFound ''b'')
   \<and> navigate (JObj [(''a'', JInt 1)]) [Key ''a''] =
       Inr (Some (JObj [(''a'', JInt 1)]), Some (Key ''a''), JInt 1)
   \<and> navigate (JObj [(''a'', JArr [JInt 1, JInt 2, JInt 3])]) [Key ''a'', Idx 3] =
       Inl (IndexOutOfRange 3 3)"
proof -
  let ?xs = "[JInt 1, JInt 2, JInt 3]"
  let ?kvs = "[(''a'', JInt 1)]"
  let ?doc = "JObj [(''a'', JArr ?xs)]"
  note array_step = conjunct2 [THEN conjunct2, THEN conjunct2, THEN conjunct2, THEN conjunct2,
      THEN conjunct1]
  note object_step = conjunct2 [THEN conjunct2, THEN conjunct2, THEN conjunct2, THEN conjunct2,
      THEN conjunct2, THEN conjunct1]
  have 1: "navigate (JArr ?xs) [Idx 5] = Inl (IndexOutOfRange 5 3)"
    using navigate_errors [of JNull "[]" "[]" 5 0 ?xs "[]", THEN array_step] by simp
  have 2: "navigate (JArr ?xs) [Idx (- 1)] = Inr (Some (JArr ?xs), Some (Idx (- 1)), JInt 3)"
    using navigate_errors [of JNull "[]" "[]" "- 1" 0 ?xs "[]", THEN array_step]
    by (simp add: numeral_2_eq_2)
  have 3: "navigate (JObj ?kvs) [Key ''b''] = Inl (KeyNotFound ''b'')"
    using navigate_errors [of JNull "[]" "''b''" 0 0 "[]" ?kvs, THEN object_step] by simp
  have 4: "navigate (JObj ?kvs) [Key ''a''] = Inr (Some (JObj ?kvs), Some (Key ''a''), JInt 1)"
    using navigate_errors [of JNull "[]" "''a''" 0 0 "[]" ?kvs, THEN object_step] by simp
  have "navigate ?doc [Key ''a''] = Inr (Some ?doc, Some (Key ''a''), JArr ?xs)"
    using navigate_errors [of JNull "[]" "''a''" 0 0 "[]" "[(''a'', JArr ?xs)]", THEN object_step]
    by simp
  then have "\<exists>pre post parent key xs.
          [Key ''a'', Idx 3] = pre @ Idx 3 # post
          \<and> navigate ?doc pre = Inr (parent, key, JArr xs)
          \<and> (3::nat) = length xs \<and> \<not> (- int (length xs) \<le> 3 \<and> 3 < int (length xs))"
    by (intro exI [of _ "[Key ''a'']"] exI [of _ "[]"] exI [of _ "Some ?doc"]
        exI [of _ "Some (Key ''a'')"] exI [of _ ?xs]) simp
  then have 5: "navigate ?doc [Key ''a'', Idx 3] = Inl (IndexOutOfRange 3 3)"
    by (rule navigate_errors [of ?doc "[Key ''a'', Idx 3]" "''a''" 3 3 "[]" "[]",
          THEN conjunct2, THEN conjunct2, THEN conjunct1, THEN iffD2])
  from 1 2 3 4 5 show ?thesis
    by (intro conjI)
qed

section \<open>Claim about the issue-ID utility\<close>

lemma fold_scan_name:
  "fold scan_name names m =
     fold max (map (\<lambda>name. nat_of_digits (takeWhile is_decimal name))
                 (filter (\<lambda>name. takeWhile is_decimal name \<noteq> []) names)) m"
  by (induction names arbitrary: m) (simp_all add: scan_name_def Let_def max.commute)

lemma fold_scan_subdir:
  "fold (scan_subdir issues) [''open'', ''closed''] 0 = Max (set (0 # digit_prefixes issues))"
proof -
  have "Max (set (0 # digit_prefixes issues)) = fold max (digit_prefixes issues) 0"
    by (simp only: Max.set_eq_fold)
  also have "\<dots> = fold (scan_subdir issues) [''open'', ''closed''] 0"
    by (simp add: digit_prefixes_def scan_subdir_def fold_scan_name split: option.splits)
  finally show ?thesis by simp
qed

lemma nat_of_digits_zeros: "nat_of_digits (replicate k CHR ''0'' @ s) = nat_of_digits s"
proof -
  have "foldl (\<lambda>acc c. 10 * acc + digit_val c) 0 (replicate k CHR ''0'') = 0"
    by (induction k) (simp_all add: digit_val_def digits_def)
  then show ?thesis
    by (simp add: nat_of_digits_def)
qed

lemma format_03d_value: "nat_of_digits (format_03d n) = n"
  by (simp add: format_03d_def nat_of_digits_zeros nat_of_digits_str_nat)

lemma format_03d_decimal: "list_all is_decimal (format_03d n)"
proof -
  have "is_decimal CHR ''0''"
    by (simp add: is_decimal_def digits_def)
  with str_nat_decimal [of n] show ?thesis
    by (auto simp: format_03d_def list_all_iff)
qed

lemma format_03d_length: "3 \<le> length (format_03d n)"
  by (simp add: format_03d_def)

lemma str_nat_length_small: "n < 1000 \<Longrightarrow> length (str_nat n) \<le> 3"
proof -
  assume n: "n < 1000"
  have 1: "length (str_nat m) = 1" if "m < 10" for m
    using that by (subst str_nat.simps) simp
  have 2: "length (str_nat m) \<le> 2" if "m < 100" for m
  proof (cases "m < 10")
    case True
    then show ?thesis by (simp add: 1)
  next
    case False
    moreover from that have "m div 10 < 10" by simp
    ultimately show ?thesis
      by (subst str_nat.simps) (simp add: 1)
  qed
  show ?thesis
  proof (cases "n < 10")
    case True
    then show ?thesis by (simp add: 1)
  next
    case False
    moreover from n have "n div 10 < 100" by simp
    then have "length (str_nat (n div 10)) \<le> 2" by (rule 2)
    ultimately show ?thesis
      by (subst str_nat.simps) simp
  qed
qed

lemma format_03d_length_small: "n < 1000 \<Longrightarrow> length (format_03d n) = 3"
  using str_nat_length_small [of n] by (simp add: format_03d_def)

text \<open>
  C9. Given a directory with \<^verbatim>\<open>open/\<close> and \<^verbatim>\<open>closed/\<close> subdirectories, the utility returns
  one plus the maximum of the leading digit runs of the file names there (the maximum being
  zero when no name starts with a digit), written in decimal and padded with zeros on the
  left to three characters: the result decodes to that number, has at least three
  characters and exactly three below 1000, and is \<^verbatim>\<open>001\<close> when no name has a digit prefix.
  With \<^verbatim>\<open>001-foo\<close> and \<^verbatim>\<open>003-bar\<close> in \<^verbatim>\<open>open/\<close> and \<^verbatim>\<open>002-baz\<close> in \<^verbatim>\<open>closed/\<close> it is
  \<^verbatim>\<open>004\<close>.
\<close>

theorem next_issue_id_spec:
  "next_issue_id issues = format_03d (Max (set (0 # digit_prefixes issues)) + 1)
   \<and> nat_of_digits (next_issue_id issues) = Max (set (0 # digit_prefixes issues)) + 1
   \<and> list_all is_decimal (next_issue_id issues)
   \<and> 3 \<le> length (next_issue_id issues)
   \<and> (Max (set (0 # digit_prefixes issues)) + 1 < 1000 \<longrightarrow>
        length (next_issue_id issues) = 3)
   \<and> (digit_prefixes issues = [] \<longrightarrow> next_issue_id issues = ''001'')"
proof -
  have eq: "next_issue_id issues = format_03d (Max (set (0 # digit_prefixes issues)) + 1)"
    by (simp only: next_issue_id_def fold_scan_subdir)
  have one: "format_03d (Suc 0) = ''001''"
    by (simp add: format_03d_def str_nat.simps digit_char_def digits_def numeral_2_eq_2)
  show ?thesis
    unfolding eq
    by (intro conjI impI format_03d_value format_03d_decimal format_03d_length
        format_03d_length_small refl) (simp_all add: one)
qed

theorem next_issue_id_spec_witness:
  "next_issue_id example_issues = ''004''
   \<and> next_issue_id (\<lambda>subdir. None) = ''001''
   \<and> next_issue_id (\<lambda>subdir. if subdir = ''open'' then Some [''notes.md''] else None) = ''001''"
proof -
  have p: "digit_prefixes example_issues = [1, 3, 2]"
    by (simp add: digit_prefixes_def example_issues_def is_decimal_def digits_def
        nat_of_digits_def digit_val_def)
  have four: "format_03d 4 = ''004''"
    by (simp add: format_03d_def str_nat.simps digit_char_def digits_def numeral_2_eq_2)
  have 1: "next_issue_id example_issues = ''004''"
    using next_issue_id_spec [of example_issues] by (simp add: p four)
  note last_part = conjunct2 [THEN conjunct2, THEN conjunct2, THEN conjunct2, THEN conjunct2, THEN mp]
  have "digit_prefixes (\<lambda>subdir. None) = []"
    by (simp add: digit_prefixes_def)
  then have 2: "next_issue_id (\<lambda>subdir. None) = ''001''"
    by (rule next_issue_id_spec [of "\<lambda>subdir. None", THEN last_part])
  have "digit_prefixes (\<lambda>subdir. if subdir = ''open'' then Some [''notes.md''] else None) = []"
    by (simp add: digit_prefixes_def is_decimal_def digits_def)
  then have 3: "next_issue_id (\<lambda>subdir. if subdir = ''open'' then Some [''notes.md''] else None)
             = ''001''"
    by (rule next_issue_id_spec
          [of "\<lambda>subdir. if subdir = ''open'' then Some [''notes.md''] else None", THEN last_part])
  from 1 2 3 show ?thesis by simp
qed

section \<open>Claim about deep merge\<close>

lemma merge_fold_map_of:
  "distinct (map fst patch) \<Longrightarrow>
   map_of (fold (\<lambda>(k, v) result.
                  AList.update k (case map_of result k of Some b \<Rightarrow> f b v | None \<Rightarrow> v) result)
            patch base) k =
     (case map_of patch k of
        None \<Rightarrow> map_of base k
      | Some v \<Rightarrow> Some (case map_of base k of Some b \<Rightarrow> f b v | None \<Rightarrow> v))"
proof (induction patch arbitrary: base k)
  case Nil
  then show ?case by simp
next
  case (Cons kv patch)
  obtain k' v' where kv: "kv = (k', v')"
    by (cases kv)
  from Cons.prems kv have d: "distinct (map fst patch)" and fresh: "map_of patch k' = None"
    by (auto simp: map_of_eq_None_iff)
  show ?case
  proof (cases "k = k'")
    case True
    with fresh show ?thesis
      by (simp add: kv Cons.IH [OF d] update_conv)
  next
    case False
    then show ?thesis
      by (simp add: kv Cons.IH [OF d] update_conv split: option.split)
  qed
qed

lemma merge_fold_keys:
  "distinct (map fst patch) \<Longrightarrow>
   map fst (fold (\<lambda>(k, v) result.
                  AList.update k (case map_of result k of Some b \<Rightarrow> f b v | None \<Rightarrow> v) result)
            patch base) =
     map fst base @ filter (\<lambda>k. k \<notin> set (map fst base)) (map fst patch)"
proof (induction patch arbitrary: base)
  case Nil
  then show ?case by simp
next
  case (Cons kv patch)
  obtain k' v' where kv: "kv = (k', v')"
    by (cases kv)
  from Cons.prems kv have d: "distinct (map fst patch)" and fresh: "k' \<notin> set (map fst patch)"
    by auto
  show ?case
  proof (cases "k' \<in> set (map fst base)")
    case True
    then show ?thesis
      by (simp add: kv Cons.IH [OF d] update_keys)
  next
    case False
    have "filter (\<lambda>k. k \<notin> set (map fst base) \<and> k \<noteq> k') (map fst patch) =
          filter (\<lambda>k. k \<notin> set (map fst base)) (map fst patch)"
      using fresh by (intro filter_cong) auto
    with False show ?thesis
      by (simp add: kv Cons.IH [OF d] update_keys conj_commute)
  qed
qed

text \<open>
  C1. Deep merge follows the recursion rule. When base and patch are both objects (the keys
  of the patch pairwise different, as in every \<^verbatim>\<open>dict\<close>), the result is an object that starts
  as a copy of base: the keys of base in their order, followed by the keys that only the
  patch has, in the order of the patch; a key of the patch that base has carries the
  recursive merge of the two values, a key that only the patch has carries the value of the
  patch, and every other key keeps the value of base. When base or patch is not an object,
  the patch replaces base; arrays in particular are replaced, never merged element-wise.
  Merging at the root of a document is this function. Merging base
  \<^verbatim>\<open>{"a":1,"b":{"c":2}}\<close> with patch \<^verbatim>\<open>{"b":{"d":3},"e":4}\<close> yields
  \<^verbatim>\<open>{"a":1,"b":{"c":2,"d":3},"e":4}\<close>.
\<close>

theorem deep_merge_rule:
  "(distinct (map fst patch) \<longrightarrow>
      (\<exists>result.
          deep_merge (JObj base) (JObj patch) = JObj result
          \<and> map fst result = map fst base @ filter (\<lambda>k. k \<notin> set (map fst base)) (map fst patch)
          \<and> (\<forall>k. map_of result k =
                (case map_of patch k of
                   None \<Rightarrow> map_of base k
                 | Some v \<Rightarrow>
                     Some (case map_of base k of Some b \<Rightarrow> deep_merge b v | None \<Rightarrow> v)))))
   \<and> ((\<forall>kvs. b \<noteq> JObj kvs) \<or> (\<forall>kvs. p \<noteq> JObj kvs) \<longrightarrow> deep_merge b p = p)
   \<and> deep_merge (JArr xs) (JArr ys) = JArr ys
   \<and> apply_merge b [] p = Inr (deep_merge b p)
   \<and> deep_merge
        (JObj [(''a'', JInt 1), (''b'', JObj [(''c'', JInt 2)])])
        (JObj [(''b'', JObj [(''d'', JInt 3)]), (''e'', JInt 4)]) =
      JObj [(''a'', JInt 1), (''b'', JObj [(''c'', JInt 2), (''d'', JInt 3)]), (''e'', JInt 4)]"
proof (intro conjI impI)
  assume d: "distinct (map fst patch)"
  show "\<exists>result.
          deep_merge (JObj base) (JObj patch) = JObj result
          \<and> map fst result = map fst base @ filter (\<lambda>k. k \<notin> set (map fst base)) (map fst patch)
          \<and> (\<forall>k. map_of result k =
                (case map_of patch k of
                   None \<Rightarrow> map_of base k
                 | Some v \<Rightarrow>
                     Some (case map_of base k of Some b \<Rightarrow> deep_merge b v | None \<Rightarrow> v)))"
    by (simp only: deep_merge.simps json.inject simp_thms ex_simps
        merge_fold_keys [OF d] merge_fold_map_of [OF d])
next
  assume "(\<forall>kvs. b \<noteq> JObj kvs) \<or> (\<forall>kvs. p \<noteq> JObj kvs)"
  then show "deep_merge b p = p"
    by (cases b; cases p) auto
next
  show "deep_merge (JArr xs) (JArr ys) = JArr ys"
    by simp
next
  show "apply_merge b [] p = Inr (deep_merge b p)"
    by (simp add: apply_merge_def)
next
  show "deep_merge
        (JObj [(''a'', JInt 1), (''b'', JObj [(''c'', JInt 2)])])
        (JObj [(''b'', JObj [(''d'', JInt 3)]), (''e'', JInt 4)]) =
      JObj [(''a'', JInt 1), (''b'', JObj [(''c'', JInt 2), (''d'', JInt 3)]), (''e'', JInt 4)]"
    by simp
qed

theorem deep_merge_rule_witness:
  "(\<exists>result.
      deep_merge (JObj [(''a'', JInt 1), (''b'', JObj [(''c'', JInt 2)])])
                 (JObj [(''b'', JObj [(''d'', JInt 3)]), (''e'', JInt 4)]) = JObj result
      \<and> map fst result = [''a'', ''b'', ''e'']
      \<and> map_of result ''a'' = Some (JInt 1)
      \<and> map_of result ''b'' = Some (deep_merge (JObj [(''c'', JInt 2)]) (JObj [(''d'', JInt 3)]))
      \<and> map_of result ''e'' = Some (JInt 4))
   \<and> deep_merge (JObj [(''c'', JInt 2)]) (JInt 5) = JInt 5
   \<and> deep_merge (JStr ''x'') (JObj [(''c'', JInt 2)]) = JObj [(''c'', JInt 2)]"
proof -
  let ?base = "[(''a'', JInt 1), (''b'', JObj [(''c'', JInt 2)])]"
  let ?patch = "[(''b'', JObj [(''d'', JInt 3)]), (''e'', JInt 4)]"
  have d: "distinct (map fst ?patch)"
    by simp
  from deep_merge_rule [of ?patch ?base JNull JNull "[]" "[]", THEN conjunct1, THEN mp, OF d]
  obtain result where r: "deep_merge (JObj ?base) (JObj ?patch) = JObj result"
    "map fst result = map fst ?base @ filter (\<lambda>k. k \<notin> set (map fst ?base)) (map fst ?patch)"
    "\<And>k. map_of result k =
        (case map_of ?patch k of
           None \<Rightarrow> map_of ?base k
         | Some v \<Rightarrow> Some (case map_of ?base k of Some b \<Rightarrow> deep_merge b v | None \<Rightarrow> v))"
    by blast
  have 1: "\<exists>result.
      deep_merge (JObj ?base) (JObj ?patch) = JObj result
      \<and> map fst result = [''a'', ''b'', ''e'']
      \<and> map_of result ''a'' = Some (JInt 1)
      \<and> map_of result ''b'' = Some (deep_merge (JObj [(''c'', JInt 2)]) (JObj [(''d'', JInt 3)]))
      \<and> map_of result ''e'' = Some (JInt 4)"
    using r(1) r(2) r(3) [of "''a''"] r(3) [of "''b''"] r(3) [of "''e''"]
    by (intro exI [of _ result]) simp
  have "(\<forall>kvs. JObj [(''c'', JInt 2)] \<noteq> JObj kvs) \<or> (\<forall>kvs. JInt 5 \<noteq> JObj kvs)"
    by simp
  then have 2: "deep_merge (JObj [(''c'', JInt 2)]) (JInt 5) = JInt 5"
    by (rule deep_merge_rule [of "[]" "[]" "JObj [(''c'', JInt 2)]" "JInt 5" "[]" "[]",
          THEN conjunct2, THEN conjunct1, THEN mp])
  have "(\<forall>kvs. JStr ''x'' \<noteq> JObj kvs) \<or> (\<forall>kvs. JObj [(''c'', JInt 2)] \<noteq> JObj kvs)"
    by simp
  then have 3: "deep_merge (JStr ''x'') (JObj [(''c'', JInt 2)]) = JObj [(''c'', JInt 2)]"
    by (rule deep_merge_rule [of "[]" "[]" "JStr ''x''" "JObj [(''c'', JInt 2)]" "[]" "[]",
          THEN conjunct2, THEN conjunct1, THEN mp])
  from 1 2 3 show ?thesis by blast
qed

section \<open>Claim about deleting and inserting at the same index\<close>

lemma navigate_step_update_at:
  "navigate_step node sg = Inr child \<Longrightarrow>
   navigate_step (update_at node (sg # segments) f) sg = Inr (update_at child segments f)"
  by (auto simp: navigate_step_def map_of_map_entry py_index_def
      split: seg.splits json.splits option.splits if_splits)

lemma navigate_loop_update_at:
  "navigate_loop parent key node segments = Inr (parent', key', target) \<Longrightarrow>
   \<exists>parent''. navigate_loop q key (update_at node segments f) segments =
                Inr (parent'', key', f target)"
proof (induction segments arbitrary: parent key node q)
  case Nil
  then show ?case by simp
next
  case (Cons sg segments)
  from Cons.prems obtain child where
    step: "navigate_step node sg = Inr child"
    and rest: "navigate_loop (Some node) (Some sg) child segments = Inr (parent', key', target)"
    by (auto split: sum.splits)
  from Cons.IH [OF rest, of "Some (update_at node (sg # segments) f)"]
  obtain parent'' where
    "navigate_loop (Some (update_at node (sg # segments) f)) (Some sg)
       (update_at child segments f) segments = Inr (parent'', key', f target)"
    by blast
  with navigate_step_update_at [OF step, of segments f] show ?case
    by (simp del: update_at.simps)
qed

lemma navigate_update_at:
  "navigate data pre = Inr (parent, key, target) \<Longrightarrow>
   \<exists>parent'. navigate (update_at data pre f) pre = Inr (parent', key, f target)"
  unfolding navigate_def by (rule navigate_loop_update_at)

lemma length_py_pop:
  "- int (length xs) \<le> i \<Longrightarrow> i < int (length xs) \<Longrightarrow> length (py_pop xs i) = length xs - 1"
  by (auto simp: py_pop_def py_index_def)

lemma length_py_insert: "length (py_insert xs i x) = Suc (length xs)"
  by (simp add: py_insert_def Let_def)

text \<open>
  C2, as the code has it. Take a document in which the segments \<open>pre\<close> lead to an array of
  length \<open>n\<close>, and a valid index \<open>i\<close> of it (\<open>-n \<le> i < n\<close>). \<^verbatim>\<open>apply_del\<close> at the path of
  index \<open>i\<close> succeeds. \<^verbatim>\<open>apply_before\<close> at that same path then navigates the shortened
  array: when \<open>i\<close> is still an index of it (\<open>-n < i < n - 1\<close>) the insertion succeeds and
  the array has its original length again; when \<open>i\<close> was the last index \<open>n - 1\<close>, or
  \<open>-n\<close>, it fails with the index-out-of-range error reporting \<open>i\<close> and the length
  \<open>n - 1\<close>.
\<close>

theorem del_then_before_restores_length:
  assumes "navigate data pre = Inr (parent, key, JArr xs)"
    and "- int (length xs) \<le> i" and "i < int (length xs)"
  shows "\<exists>data'.
           apply_del data (pre @ [Idx i]) = Inr data'
           \<and> (if - int (length xs) < i \<and> i < int (length xs) - 1
               then \<exists>data'' parent' ys.
                      apply_before data' (pre @ [Idx i]) new_val = Inr data''
                      \<and> navigate data'' pre = Inr (parent', key, JArr ys)
                      \<and> length ys = length xs
               else apply_before data' (pre @ [Idx i]) new_val =
                      Inl (IndexOutOfRange i (length xs - 1)))"
proof -
  let ?data' = "update_at data pre (del_child (Idx i))"
  let ?data'' = "update_at ?data' pre (insert_child (Idx i) new_val)"
  have "navigate data (pre @ [Idx i]) = Inr (Some (JArr xs), Some (Idx i), xs ! py_index xs i)"
    using assms(2,3) by (simp add: navigate_last [OF assms(1)] navigate_step_def)
  then have del: "apply_del data (pre @ [Idx i]) = Inr ?data'"
    by (simp add: apply_del_def)
  from navigate_update_at [OF assms(1), of "del_child (Idx i)"]
  obtain p1 where n1: "navigate ?data' pre = Inr (p1, key, JArr (py_pop xs i))"
    by (auto simp: del_child_def)
  have len1: "length (py_pop xs i) = length xs - 1"
    using assms(2,3) by (rule length_py_pop)
  show ?thesis
  proof (cases "- int (length xs) < i \<and> i < int (length xs) - 1")
    case True
    with len1 have range1:
      "- int (length (py_pop xs i)) \<le> i" "i < int (length (py_pop xs i))"
      by simp_all
    have "navigate ?data' (pre @ [Idx i]) =
            Inr (Some (JArr (py_pop xs i)), Some (Idx i), py_pop xs i ! py_index (py_pop xs i) i)"
      using range1 by (simp add: navigate_last [OF n1] navigate_step_def)
    then have before: "apply_before ?data' (pre @ [Idx i]) new_val = Inr ?data''"
      by (simp add: apply_before_def)
    from navigate_update_at [OF n1, of "insert_child (Idx i) new_val"]
    obtain p2 where
      n2: "navigate ?data'' pre = Inr (p2, key, JArr (py_insert (py_pop xs i) i new_val))"
      by (auto simp: insert_child_def)
    from True have "0 < length xs"
      by linarith
    with len1 have "length (py_insert (py_pop xs i) i new_val) = length xs"
      by (simp add: length_py_insert)
    with before n2 have "\<exists>data'' parent' ys.
        apply_before ?data' (pre @ [Idx i]) new_val = Inr data''
        \<and> navigate data'' pre = Inr (parent', key, JArr ys)
        \<and> length ys = length xs"
      by blast
    with del True show ?thesis
      by auto
  next
    case False
    with len1 assms(2,3) have "\<not> (- int (length (py_pop xs i)) \<le> i \<and> i < int (length (py_pop xs i)))"
      by auto
    then have "navigate ?data' (pre @ [Idx i]) =
                 Inl (IndexOutOfRange i (length (py_pop xs i)))"
      by (simp add: navigate_last [OF n1] navigate_step_def)
    then have "apply_before ?data' (pre @ [Idx i]) new_val =
                 Inl (IndexOutOfRange i (length xs - 1))"
      by (simp add: apply_before_def len1)
    with del False show ?thesis
      by auto
  qed
qed

theorem del_then_before_restores_length_witness:
  "(\<exists>data' data'' parent' ys.
      apply_del (JObj [(''tags'', JArr [JInt 1, JInt 2, JInt 3])]) ([Key ''tags''] @ [Idx 1])
        = Inr data'
      \<and> apply_before data' ([Key ''tags''] @ [Idx 1]) (JStr ''x'') = Inr data''
      \<and> navigate data'' [Key ''tags''] = Inr (parent', Some (Key ''tags''), JArr ys)
      \<and> length ys = 3)
   \<and> (\<exists>data'.
      apply_del (JObj [(''tags'', JArr [JInt 1, JInt 2, JInt 3])]) ([Key ''tags''] @ [Idx 2])
        = Inr data'
      \<and> apply_before data' ([Key ''tags''] @ [Idx 2]) (JStr ''x'') = Inl (IndexOutOfRange 2 2))"
proof -
  have n: "navigate (JObj [(''tags'', JArr [JInt 1, JInt 2, JInt 3])]) [Key ''tags''] =
        Inr (Some (JObj [(''tags'', JArr [JInt 1, JInt 2, JInt 3])]), Some (Key ''tags''),
             JArr [JInt 1, JInt 2, JInt 3])"
    by (simp add: navigate_def navigate_step_def)
  have lo1: "- int (length [JInt 1, JInt 2, JInt 3]) \<le> 1"
    and hi1: "1 < int (length [JInt 1, JInt 2, JInt 3])"
    and lo2: "- int (length [JInt 1, JInt 2, JInt 3]) \<le> 2"
    and hi2: "2 < int (length [JInt 1, JInt 2, JInt 3])"
    by simp_all
  from del_then_before_restores_length [OF n lo1 hi1, of "JStr ''x''"]
  have 1: "\<exists>data' data'' parent' ys.
      apply_del (JObj [(''tags'', JArr [JInt 1, JInt 2, JInt 3])]) ([Key ''tags''] @ [Idx 1])
        = Inr data'
      \<and> apply_before data' ([Key ''tags''] @ [Idx 1]) (JStr ''x'') = Inr data''
      \<and> navigate data'' [Key ''tags''] = Inr (parent', Some (Key ''tags''), JArr ys)
      \<and> length ys = 3"
    by (simp add: numeral_3_eq_3)
  from del_then_before_restores_length [OF n lo2 hi2, of "JStr ''x''"]
  have 2: "\<exists>data'.
      apply_del (JObj [(''tags'', JArr [JInt 1, JInt 2, JInt 3])]) ([Key ''tags''] @ [Idx 2])
        = Inr data'
      \<and> apply_before data' ([Key ''tags''] @ [Idx 2]) (JStr ''x'') = Inl (IndexOutOfRange 2 2)"
    by (simp add: numeral_2_eq_2)
  from 1 2 show ?thesis ..
qed

text \<open>
  C2 as stated fails at the last index: in \<^verbatim>\<open>[1, 2, 3]\<close> index 2 is valid, deleting it leaves
  \<^verbatim>\<open>[1, 2]\<close>, and inserting before index 2 of that array is refused.
\<close>

theorem del_then_before_counterexample:
  "navigate (JArr [JInt 1, JInt 2, JInt 3]) [Idx 2] =
     Inr (Some (JArr [JInt 1, JInt 2, JInt 3]), Some (Idx 2), JInt 3)
   \<and> apply_del (JArr [JInt 1, JInt 2, JInt 3]) [Idx 2] = Inr (JArr [JInt 1, JInt 2])
   \<and> apply_before (JArr [JInt 1, JInt 2]) [Idx 2] (JInt 9) = Inl (IndexOutOfRange 2 2)"
  by (simp add: navigate_def navigate_step_def py_index_def apply_del_def apply_before_def
      del_child_def py_pop_def numeral_2_eq_2)

section \<open>Rows of the flattener\<close>

lemma flatten_nonempty: "flatten v path rl \<noteq> []"
  by (cases "(v, path, rl)" rule: flatten.cases) simp_all

lemma flatten_hd: "fst (hd (flatten v path rl)) = path"
  by (cases "(v, path, rl)" rule: flatten.cases) simp_all

lemma flatten_prefix:
  "r \<in> set (flatten v path False) \<Longrightarrow> \<exists>s. fst r = path @ s \<and> path_tail s"
proof (induction v path "False" arbitrary: r rule: flatten.induct)
  case (1 kvs path)
  show ?case
  proof (cases "r = (path, ''object'', container_marker (kvs = []))")
    case True
    then show ?thesis by (simp add: path_tail_def)
  next
    case False
    with "1.prems" obtain k v where kv: "(k, v) \<in> set kvs"
      and r: "r \<in> set (flatten v (path @ ''.'' @ k) False)"
      by auto
    from "1.hyps" [OF kv refl] r have "\<exists>s. fst r = (path @ ''.'' @ k) @ s \<and> path_tail s"
      by simp
    then obtain s where "fst r = (path @ ''.'' @ k) @ s"
      by auto
    then have "fst r = path @ (''.'' @ k @ s) \<and> path_tail (''.'' @ k @ s)"
      by (simp add: path_tail_def)
    then show ?thesis by blast
  qed
next
  case (2 xs path)
  show ?case
  proof (cases "r = (path, ''array'', container_marker (xs = []))")
    case True
    then show ?thesis by (simp add: path_tail_def)
  next
    case False
    with "2.prems" obtain i v where iv: "(i, v) \<in> set (enumerate 0 xs)"
      and r: "r \<in> set (flatten v (path @ ''['' @ str_nat i @ '']'') False)"
      by auto
    from "2.hyps" [OF iv refl r] obtain s where "fst r = (path @ ''['' @ str_nat i @ '']'') @ s"
      by auto
    then have "fst r = path @ (''['' @ str_nat i @ '']'' @ s)
        \<and> path_tail (''['' @ str_nat i @ '']'' @ s)"
      by (simp add: path_tail_def)
    then show ?thesis by blast
  qed
qed (simp_all add: path_tail_def)

lemma key_tail_unique:
  assumes "list_all key_char k1" and "list_all key_char k2"
    and "path_tail s1" and "path_tail s2" and "k1 @ s1 = k2 @ s2"
  shows "k1 = k2"
proof -
  have tw: "takeWhile key_char (k @ s) = k" if "list_all key_char k" and "path_tail s" for k s
  proof -
    from that(2) have "takeWhile key_char s = []"
      by (cases s) (auto simp: path_tail_def key_char_def)
    with that(1) show ?thesis
      by (simp add: takeWhile_append2 list_all_iff)
  qed
  from assms(5) have "takeWhile key_char (k1 @ s1) = takeWhile key_char (k2 @ s2)"
    by simp
  with assms(1-4) show ?thesis
    by (simp add: tw)
qed

lemma index_tail_unique:
  assumes "str_nat i @ '']'' @ s1 = str_nat j @ '']'' @ s2"
  shows "i = j"
proof -
  have tw: "takeWhile is_decimal (str_nat n @ '']'' @ s) = str_nat n" for n s
    using str_nat_decimal [of n]
    by (simp add: takeWhile_append2 list_all_iff is_decimal_def digits_def)
  from assms have "takeWhile is_decimal (str_nat i @ '']'' @ s1) =
                   takeWhile is_decimal (str_nat j @ '']'' @ s2)"
    by simp
  then have "str_nat i = str_nat j"
    by (simp only: tw)
  then show ?thesis
    by (rule str_nat_inj)
qed

lemma distinct_concat_map:
  assumes "distinct xs"
    and "\<And>x. x \<in> set xs \<Longrightarrow> distinct (g x)"
    and "\<And>x y. x \<in> set xs \<Longrightarrow> y \<in> set xs \<Longrightarrow> x \<noteq> y \<Longrightarrow> set (g x) \<inter> set (g y) = {}"
  shows "distinct (concat (map g xs))"
  using assms
proof (induction xs)
  case Nil
  then show ?case by simp
next
  case (Cons x xs)
  have "distinct (concat (map g xs))"
    using Cons.prems by (intro Cons.IH) auto
  moreover have "distinct (g x)"
    using Cons.prems(2) by simp
  moreover have "set (g x) \<inter> set (g y) = {}" if "y \<in> set xs" for y
    using that Cons.prems(1) by (intro Cons.prems(3)) auto
  ultimately show ?case
    by auto
qed

lemma flatten_paths_prefix:
  "p \<in> set (map fst (flatten v path False)) \<Longrightarrow> \<exists>s. p = path @ s \<and> path_tail s"
  using flatten_prefix by fastforce

lemma object_children_distinct:
  assumes keys: "distinct (map fst kvs)"
    and plain: "\<And>kv. kv \<in> set kvs \<Longrightarrow> list_all key_char (fst kv)"
    and sub: "\<And>kv. kv \<in> set kvs \<Longrightarrow> distinct (map fst (flatten (snd kv) (pre @ fst kv) False))"
  shows "distinct (concat (map (\<lambda>kv. map fst (flatten (snd kv) (pre @ fst kv) False)) kvs))"
proof (rule distinct_concat_map)
  show "distinct kvs"
    using keys by (rule distinct_map [THEN iffD1, THEN conjunct1])
next
  fix kv assume "kv \<in> set kvs"
  then show "distinct (map fst (flatten (snd kv) (pre @ fst kv) False))"
    by (rule sub)
next
  fix kv1 kv2
  assume in1: "kv1 \<in> set kvs" and in2: "kv2 \<in> set kvs" and ne: "kv1 \<noteq> kv2"
  from keys have "inj_on fst (set kvs)"
    by (simp add: distinct_map)
  with in1 in2 ne have kne: "fst kv1 \<noteq> fst kv2"
    by (auto dest: inj_onD)
  show "set (map fst (flatten (snd kv1) (pre @ fst kv1) False)) \<inter>
        set (map fst (flatten (snd kv2) (pre @ fst kv2) False)) = {}"
  proof (rule ccontr)
    assume "\<not> ?thesis"
    then obtain p where p1: "p \<in> set (map fst (flatten (snd kv1) (pre @ fst kv1) False))"
      and p2: "p \<in> set (map fst (flatten (snd kv2) (pre @ fst kv2) False))"
      by blast
    from flatten_paths_prefix [OF p1] obtain s1 where s1: "p = (pre @ fst kv1) @ s1" "path_tail s1"
      by blast
    from flatten_paths_prefix [OF p2] obtain s2 where s2: "p = (pre @ fst kv2) @ s2" "path_tail s2"
      by blast
    from s1(1) s2(1) have "fst kv1 @ s1 = fst kv2 @ s2"
      by simp
    with plain [OF in1] plain [OF in2] s1(2) s2(2) have "fst kv1 = fst kv2"
      by (rule key_tail_unique)
    with kne show False ..
  qed
qed

lemma array_children_distinct:
  assumes sub: "\<And>i v. (i, v) \<in> set (enumerate 0 xs) \<Longrightarrow>
                  distinct (map fst (flatten v (path @ ''['' @ str_nat i @ '']'') False))"
  shows "distinct (concat (map (\<lambda>iv. map fst (flatten (snd iv)
                      (path @ ''['' @ str_nat (fst iv) @ '']'') False)) (enumerate 0 xs)))"
proof (rule distinct_concat_map)
  show "distinct (enumerate 0 xs)"
    by (rule distinct_enumerate)
next
  fix iv assume "iv \<in> set (enumerate 0 xs)"
  then show "distinct (map fst (flatten (snd iv) (path @ ''['' @ str_nat (fst iv) @ '']'') False))"
    by (intro sub) simp
next
  fix iv1 iv2
  assume in1: "iv1 \<in> set (enumerate 0 xs)" and in2: "iv2 \<in> set (enumerate 0 xs)"
    and ne: "iv1 \<noteq> iv2"
  from in1 in2 have "snd iv1 = xs ! fst iv1" "snd iv2 = xs ! fst iv2"
    by (simp_all add: in_set_enumerate_eq)
  with ne have ine: "fst iv1 \<noteq> fst iv2"
    by (auto simp: prod_eq_iff)
  show "set (map fst (flatten (snd iv1) (path @ ''['' @ str_nat (fst iv1) @ '']'') False)) \<inter>
        set (map fst (flatten (snd iv2) (path @ ''['' @ str_nat (fst iv2) @ '']'') False)) = {}"
  proof (rule ccontr)
    assume "\<not> ?thesis"
    then obtain p where
      p1: "p \<in> set (map fst (flatten (snd iv1) (path @ ''['' @ str_nat (fst iv1) @ '']'') False))"
      and p2: "p \<in> set (map fst (flatten (snd iv2) (path @ ''['' @ str_nat (fst iv2) @ '']'') False))"
      by blast
    from flatten_paths_prefix [OF p1] obtain s1 where
      s1: "p = (path @ ''['' @ str_nat (fst iv1) @ '']'') @ s1"
      by blast
    from flatten_paths_prefix [OF p2] obtain s2 where
      s2: "p = (path @ ''['' @ str_nat (fst iv2) @ '']'') @ s2"
      by blast
    from s1 s2 have "str_nat (fst iv1) @ '']'' @ s1 = str_nat (fst iv2) @ '']'' @ s2"
      by simp
    then have "fst iv1 = fst iv2"
      by (rule index_tail_unique)
    with ine show False ..
  qed
qed

lemma flatten_object_paths:
  "map fst (flatten (JObj kvs) path rl) =
     path # concat (map (\<lambda>kv. map fst (flatten (snd kv)
                       ((if rl then [] else path @ ''.'') @ fst kv) False)) kvs)"
  by (simp add: map_concat comp_def case_prod_beta)

lemma flatten_array_paths:
  "map fst (flatten (JArr xs) path rl) =
     path # concat (map (\<lambda>iv. map fst (flatten (snd iv)
                       (path @ ''['' @ str_nat (fst iv) @ '']'') False)) (enumerate 0 xs))"
  by (simp add: map_concat comp_def case_prod_beta)

lemma flatten_distinct_nested:
  "wf_json v \<Longrightarrow> plain_keys v \<Longrightarrow> distinct (map fst (flatten v path False))"
proof (induction v path "False" rule: flatten.induct)
  case (1 kvs path)
  have sub: "distinct (map fst (flatten (snd kv) ((path @ ''.'') @ fst kv) False))"
    if "kv \<in> set kvs" for kv
  proof -
    from that "1.prems" have "wf_json (snd kv)" "plain_keys (snd kv)"
      by (auto simp: list_all_iff)
    with "1.hyps" [OF that, of "fst kv" "snd kv"] show ?thesis
      by simp
  qed
  have "distinct (concat (map (\<lambda>kv. map fst (flatten (snd kv) ((path @ ''.'') @ fst kv) False)) kvs))"
    using "1.prems" by (intro object_children_distinct sub) (auto simp: list_all_iff)
  moreover have "path \<noteq> p"
    if "kv \<in> set kvs" "p \<in> set (map fst (flatten (snd kv) ((path @ ''.'') @ fst kv) False))"
    for kv p
    using flatten_paths_prefix [OF that(2)] by auto
  ultimately show ?case
    by (auto simp: flatten_object_paths simp del: flatten.simps)
next
  case (2 xs path)
  have sub: "distinct (map fst (flatten v (path @ ''['' @ str_nat i @ '']'') False))"
    if "(i, v) \<in> set (enumerate 0 xs)" for i v
  proof -
    from that have "v \<in> set xs"
      by (auto simp: in_set_enumerate_eq)
    with "2.prems" have "wf_json v" "plain_keys v"
      by (auto simp: list_all_iff)
    with "2.hyps" [OF that refl] show ?thesis
      by simp
  qed
  have "distinct (concat (map (\<lambda>iv. map fst (flatten (snd iv)
                      (path @ ''['' @ str_nat (fst iv) @ '']'') False)) (enumerate 0 xs)))"
    by (intro array_children_distinct sub)
  moreover have "path \<noteq> p"
    if "p \<in> set (map fst (flatten (snd iv) (path @ ''['' @ str_nat (fst iv) @ '']'') False))"
    for iv p
    using flatten_paths_prefix [OF that] by auto
  ultimately show ?case
    by (auto simp: flatten_array_paths simp del: flatten.simps)
qed simp_all

lemmas flatten_eval = flatten_root_def container_marker_def get_type_name_def str_nat.simps
  digit_char_def digits_def

text \<open>
  C4, as the code has it. For every JSON value the row sequence of a flatten pass is not
  empty and its first row is the root row, with the path \<^verbatim>\<open>root\<close>. The paths of the rows are
  pairwise different whenever the document has plain keys (no key holds a dot or an opening
  bracket) and no key of a root object is \<^verbatim>\<open>root\<close>, the keys of each object being pairwise
  different as in every parsed document.
\<close>

theorem flatten_root_paths:
  "flatten_root data \<noteq> []
   \<and> fst (hd (flatten_root data)) = ''root''
   \<and> (wf_json data \<and> plain_keys data \<and> root_keys_ok data \<longrightarrow>
        distinct (map fst (flatten_root data)))"
proof (intro conjI impI)
  show "flatten_root data \<noteq> []"
    by (simp add: flatten_root_def flatten_nonempty)
  show "fst (hd (flatten_root data)) = ''root''"
    by (simp add: flatten_root_def flatten_hd)
next
  assume ok: "wf_json data \<and> plain_keys data \<and> root_keys_ok data"
  show "distinct (map fst (flatten_root data))"
  proof (cases data)
    case (JObj kvs)
    have sub: "distinct (map fst (flatten (snd kv) ([] @ fst kv) False))" if "kv \<in> set kvs" for kv
    proof -
      from that ok JObj have "wf_json (snd kv)" "plain_keys (snd kv)"
        by (auto simp: list_all_iff)
      then show ?thesis
        by (rule flatten_distinct_nested)
    qed
    have plain: "list_all key_char (fst kv)" if "kv \<in> set kvs" for kv
      using that ok JObj by (auto simp: list_all_iff)
    have "distinct (concat (map (\<lambda>kv. map fst (flatten (snd kv) ([] @ fst kv) False)) kvs))"
      using ok JObj by (intro object_children_distinct sub plain) auto
    moreover have "p \<noteq> ''root''"
      if kv: "kv \<in> set kvs" and p: "p \<in> set (map fst (flatten (snd kv) ([] @ fst kv) False))"
      for kv p
    proof
      assume root: "p = ''root''"
      from flatten_paths_prefix [OF p] obtain s where s: "p = ([] @ fst kv) @ s" "path_tail s"
        by blast
      have "list_all key_char ''root''" "path_tail []"
        by (simp_all add: key_char_def path_tail_def)
      moreover from s(1) root have "fst kv @ s = ''root'' @ []"
        by simp
      ultimately have "fst kv = ''root''"
        using plain [OF kv] s(2) by (intro key_tail_unique [of "fst kv" "''root''" s "[]"])
      moreover from kv have "fst kv \<in> set (map fst kvs)"
        by simp
      ultimately have "''root'' \<in> set (map fst kvs)"
        by (simp only:)
      with ok JObj show False
        by (simp add: root_keys_ok_def)
    qed
    ultimately show ?thesis
      unfolding JObj flatten_root_def flatten_object_paths by auto
  next
    case (JArr xs)
    have "flatten (JArr xs) ''root'' True = flatten (JArr xs) ''root'' False"
      by simp
    with ok JArr show ?thesis
      by (simp only: flatten_root_def flatten_distinct_nested)
  qed (simp_all add: flatten_root_def)
qed

theorem flatten_root_paths_witness:
  "map fst (flatten_root (JObj [(''users'', JArr [JObj [(''name'', JStr ''x'')]]), (''n'', JInt 1)]))
     = [''root'', ''users'', ''users[0]'', ''users[0].name'', ''n'']
   \<and> distinct (map fst
        (flatten_root (JObj [(''users'', JArr [JObj [(''name'', JStr ''x'')]]), (''n'', JInt 1)])))"
proof -
  let ?doc = "JObj [(''users'', JArr [JObj [(''name'', JStr ''x'')]]), (''n'', JInt 1)]"
  have "wf_json ?doc \<and> plain_keys ?doc \<and> root_keys_ok ?doc"
    by (simp add: key_char_def root_keys_ok_def)
  then have "distinct (map fst (flatten_root ?doc))"
    by (rule flatten_root_paths [of ?doc, THEN conjunct2, THEN conjunct2, THEN mp])
  moreover have "map fst (flatten_root ?doc) =
      [''root'', ''users'', ''users[0]'', ''users[0].name'', ''n'']"
    by (simp add: flatten_eval)
  ultimately show ?thesis by simp
qed

text \<open>
  C4 as stated fails, since keys are composed into paths as they are: the root key \<^verbatim>\<open>root\<close>
  repeats the path of the root row, and a key holding a dot or a bracket can spell the path
  of a nested row.
\<close>

theorem flatten_root_paths_counterexample:
  "wf_json (JObj [(''root'', JInt 1)])
   \<and> map fst (flatten_root (JObj [(''root'', JInt 1)])) = [''root'', ''root'']
   \<and> wf_json (JObj [(''a.b'', JInt 1), (''a'', JObj [(''b'', JInt 2)])])
   \<and> map fst (flatten_root (JObj [(''a.b'', JInt 1), (''a'', JObj [(''b'', JInt 2)])]))
       = [''root'', ''a.b'', ''a'', ''a.b'']
   \<and> wf_json (JObj [(''a[0]'', JInt 1), (''a'', JArr [JInt 2])])
   \<and> map fst (flatten_root (JObj [(''a[0]'', JInt 1), (''a'', JArr [JInt 2])]))
       = [''root'', ''a[0]'', ''a'', ''a[0]'']"
  by (simp add: flatten_eval)

text \<open>
  C5, as the code has it. Flattening from the root, the children of a root object are
  emitted under their bare keys (no leading dot, no root prefix); the children of a root
  array are emitted under \<^verbatim>\<open>root[i]\<close>, the bracketed index composed onto the root path; the
  children of a nested container are emitted under the path of their parent followed by a
  dot and the key, or by the bracketed index. The first row of every subtree carries exactly
  the path it was given, and every row of a subtree carries that path followed by nothing,
  a dot or an opening bracket.
\<close>

theorem flatten_children_paths:
  "flatten_root (JObj kvs) =
     (''root'', ''object'', container_marker (kvs = [])) #
     concat (map (\<lambda>(k, v). flatten v k False) kvs)
   \<and> flatten_root (JArr xs) =
     (''root'', ''array'', container_marker (xs = [])) #
     concat (map (\<lambda>(i, v). flatten v (''root['' @ str_nat i @ '']'') False) (enumerate 0 xs))
   \<and> flatten (JObj kvs) path False =
     (path, ''object'', container_marker (kvs = [])) #
     concat (map (\<lambda>(k, v). flatten v (path @ ''.'' @ k) False) kvs)
   \<and> flatten (JArr xs) path False =
     (path, ''array'', container_marker (xs = [])) #
     concat (map (\<lambda>(i, v). flatten v (path @ ''['' @ str_nat i @ '']'') False) (enumerate 0 xs))
   \<and> fst (hd (flatten v path root_level)) = path
   \<and> (\<forall>r \<in> set (flatten v path False). \<exists>s. fst r = path @ s \<and> path_tail s)"
  by (simp add: flatten_root_def flatten_hd flatten_prefix)

theorem flatten_children_paths_witness:
  "map fst (flatten_root (JObj [(''users'', JArr [JObj [(''name'', JStr ''x'')]])]))
     = [''root'', ''users'', ''users[0]'', ''users[0].name'']
   \<and> (\<exists>s. ''users[0].name'' = ''users'' @ s \<and> path_tail s)"
proof -
  let ?sub = "JArr [JObj [(''name'', JStr ''x'')]]"
  have "(''users[0].name'', ''string'', JStr ''x'') \<in> set (flatten ?sub ''users'' False)"
    by (simp add: flatten_eval)
  with flatten_children_paths [of "[]" "[]" "''users''" ?sub False]
  have "\<exists>s. fst (''users[0].name'', ''string'', JStr ''x'') = ''users'' @ s \<and> path_tail s"
    by blast
  moreover have "map fst (flatten_root (JObj [(''users'', ?sub)])) =
      [''root'', ''users'', ''users[0]'', ''users[0].name'']"
    by (simp add: flatten_eval)
  ultimately show ?thesis by simp
qed

text \<open>
  C5 as stated fails for a root array: its children carry the root prefix.
\<close>

theorem flatten_children_paths_counterexample:
  "flatten_root (JArr [JInt 1, JInt 2]) =
     [(''root'', ''array'', JNull), (''root[0]'', ''integer'', JInt 1),
      (''root[1]'', ''integer'', JInt 2)]"
  by (simp add: flatten_eval)

section \<open>Claims about null inference and schema reduction\<close>

lemmas rows_eval = flatten_eval infer_nulls_def record_known_def rewrite_null_def
  schema_rows_def is_decimal_def Let_def

lemma sig_example: "sig ''a[0].x'' = ''a[*].x'' \<and> sig ''a[12][3]'' = ''a[*][*]'' \<and> sig ''a[].b[x]'' = ''a[].b[x]''"
  by (simp add: is_decimal_def digits_def)

lemma schema_loop_keys:
  "seen = set (map row_key result) \<Longrightarrow> distinct (map row_key result) \<Longrightarrow>
   distinct (map row_key (schema_loop rows seen result))
   \<and> set (map row_key (schema_loop rows seen result)) = seen \<union> set (map schema_key rows)"
proof (induction rows seen result rule: schema_loop.induct)
  case (1 seen result)
  then show ?case by simp
next
  case (2 path type_name val rows seen result)
  have sk: "schema_key (path, type_name, val) = (sig path, type_name)"
    by (simp add: schema_key_def)
  show ?case
  proof (cases "(sig path, type_name) \<in> seen")
    case True
    then have step: "schema_loop ((path, type_name, val) # rows) seen result =
                     schema_loop rows seen result"
      by simp
    from "2.IH"(1) [OF refl refl True "2.prems"] True show ?thesis
      unfolding step by (auto simp: sk)
  next
    case False
    let ?row = "(sig path, type_name,
                 if val \<notin> {JNull, JStr ''(empty)'', JStr ''(null)''} then JNull else val)"
    have rk: "row_key (p, t, v) = (p, t)" for p t v
      by (simp add: row_key_def)
    from False have step: "schema_loop ((path, type_name, val) # rows) seen result =
                     schema_loop rows (insert (sig path, type_name) seen) (result @ [?row])"
      by (simp add: Let_def)
    have pre1: "insert (sig path, type_name) seen = set (map row_key (result @ [?row]))"
      using "2.prems"(1) by (simp add: rk)
    have pre2: "distinct (map row_key (result @ [?row]))"
      using "2.prems" False by (simp add: rk)
    from "2.IH"(2) [OF refl refl False pre1 pre2] show ?thesis
      unfolding step by (simp add: sk)
  qed
qed

lemma schema_rows_keys:
  "distinct (map row_key (schema_rows rows))
   \<and> set (map row_key (schema_rows rows)) = set (map schema_key rows)"
  using schema_loop_keys [of "{}" "[]" rows] by (simp add: schema_rows_def)

lemma schema_loop_values:
  "\<forall>r \<in> set result. snd (snd r) \<in> {JNull, JStr ''(empty)'', JStr ''(null)''} \<Longrightarrow>
   \<forall>r \<in> set (schema_loop rows seen result).
      snd (snd r) \<in> {JNull, JStr ''(empty)'', JStr ''(null)''}"
  by (induction rows seen result rule: schema_loop.induct) (auto simp: Let_def)

lemma schema_rows_values:
  "\<forall>r \<in> set (schema_rows rows). snd (snd r) \<in> {JNull, JStr ''(empty)'', JStr ''(null)''}"
  using schema_loop_values [of "[]" rows "{}"] by (simp add: schema_rows_def)

lemma schema_rows_example:
  "schema_rows (flatten_root (JObj [(''a'', JArr [JInt 1, JInt 2, JInt 3])])) =
     [(''root'', ''object'', JNull), (''a'', ''array'', JNull), (''a[*]'', ''integer'', JNull)]
   \<and> schema_rows (infer_nulls (flatten_root (JObj [(''a'', JArr [JInt 1, JInt 2, JInt 3])]))) =
     [(''root'', ''object'', JNull), (''a'', ''array'', JNull), (''a[*]'', ''integer'', JNull)]"
  by (simp add: rows_eval)

text \<open>
  C6. Schema reduction replaces every bracketed index by the wildcard, keeps the first row
  of every pair of structural path and type, suppresses every primitive value and keeps the
  markers \<^verbatim>\<open>(empty)\<close> and \<^verbatim>\<open>(null)\<close>. The lemmas above give the reduction of the paths, the
  deduplication and the scenario of the specification. The suppression is what the code
  misses for a primitive that reads like a marker: the test
  \<^verbatim>\<open>value not in (None, "(empty)", "(null)")\<close> cannot tell the string \<^verbatim>\<open>"(empty)"\<close> of the
  document from the marker of an empty container. On \<^verbatim>\<open>{"a": "(empty)", "b": "x"}\<close> the
  flattener emits the string rows \<^verbatim>\<open>a\<close> and \<^verbatim>\<open>b\<close> with their values, and the reduced view
  still carries the value of \<^verbatim>\<open>a\<close> while it suppresses that of \<^verbatim>\<open>b\<close>.
\<close>

theorem schema_rows_keeps_marker_like_string:
  "flatten_root (JObj [(''a'', JStr ''(empty)''), (''b'', JStr ''x'')]) =
     [(''root'', ''object'', JNull), (''a'', ''string'', JStr ''(empty)''),
      (''b'', ''string'', JStr ''x'')]
   \<and> schema_rows (infer_nulls (flatten_root (JObj [(''a'', JStr ''(empty)''), (''b'', JStr ''x'')]))) =
     [(''root'', ''object'', JNull), (''a'', ''string'', JStr ''(empty)''),
      (''b'', ''string'', JNull)]"
  by (simp add: rows_eval)

lemma record_known_step:
  "record_known r known =
     (if recordable r \<and> known (sig (fst r)) = None then known(sig (fst r) \<mapsto> fst (snd r))
      else known)"
  by (cases r) (auto simp: record_known_def recordable_def)

lemma fold_record_known:
  "fold record_known rows known s =
     (case known s of
        Some t \<Rightarrow> Some t
      | None \<Rightarrow> map_option (\<lambda>r. fst (snd r)) (find (\<lambda>r. recordable r \<and> sig (fst r) = s) rows))"
proof (induction rows arbitrary: known)
  case Nil
  then show ?case by (simp split: option.split)
next
  case (Cons r rows)
  show ?case
    by (simp only: fold_simps Cons.IH record_known_step [of r known])
       (auto split: option.split)
qed

lemma infer_nulls_first_type:
  "infer_nulls rows =
     map (\<lambda>r. if fst (snd r) = ''null'' \<and> snd (snd r) = JNull
              then (fst r,
                    (case find (\<lambda>r'. recordable r' \<and> sig (fst r') = sig (fst r)) rows of
                       None \<Rightarrow> ''unknown''
                     | Some r' \<Rightarrow> if fst (snd r') = [] then ''unknown'' else fst (snd r')),
                    JStr ''(null)'')
              else r) rows"
  unfolding infer_nulls_def
  by (rule map_cong [OF refl])
     (auto simp: rewrite_null_def fold_record_known split: option.split)

lemma infer_nulls_example:
  "infer_nulls (flatten_root (JObj [(''a'', JArr [JObj [(''x'', JStr ''s'')],
                                                   JObj [(''x'', JInt 1)],
                                                   JObj [(''x'', JNull)]])])) =
     [(''root'', ''object'', JNull), (''a'', ''array'', JNull),
      (''a[0]'', ''object'', JNull), (''a[0].x'', ''string'', JStr ''s''),
      (''a[1]'', ''object'', JNull), (''a[1].x'', ''integer'', JInt 1),
      (''a[2]'', ''object'', JNull), (''a[2].x'', ''string'', JStr ''(null)'')]"
  by (simp add: rows_eval)

text \<open>
  C7. Null inference records, per structural signature, the first type seen among the rows
  of non-null primitives, and gives every null row the type recorded for its signature, or
  \<^verbatim>\<open>unknown\<close>. The lemmas above give the first-occurrence rule over the rows the first loop
  records, and the scenario of the specification. The loop skips a row whose value is
  \<^verbatim>\<open>"(empty)"\<close>, meant for empty containers, and so also the row of a string primitive that
  reads \<^verbatim>\<open>(empty)\<close>: on \<^verbatim>\<open>{"a": [{"x": "(empty)"}, {"x": null}]}\<close> nothing is recorded for
  \<^verbatim>\<open>a[*].x\<close> and the null at \<^verbatim>\<open>a[1].x\<close> becomes \<^verbatim>\<open>unknown\<close>, where any other string at
  \<^verbatim>\<open>a[0].x\<close> makes it \<^verbatim>\<open>string\<close>.
\<close>

theorem infer_nulls_skips_marker_like_string:
  "infer_nulls (flatten_root (JObj [(''a'', JArr [JObj [(''x'', JStr ''(empty)'')],
                                                   JObj [(''x'', JNull)]])])) =
     [(''root'', ''object'', JNull), (''a'', ''array'', JNull),
      (''a[0]'', ''object'', JNull), (''a[0].x'', ''string'', JStr ''(empty)''),
      (''a[1]'', ''object'', JNull), (''a[1].x'', ''unknown'', JStr ''(null)'')]
   \<and> infer_nulls (flatten_root (JObj [(''a'', JArr [JObj [(''x'', JStr ''hello'')],
                                                     JObj [(''x'', JNull)]])])) =
     [(''root'', ''object'', JNull), (''a'', ''array'', JNull),
      (''a[0]'', ''object'', JNull), (''a[0].x'', ''string'', JStr ''hello''),
      (''a[1]'', ''object'', JNull), (''a[1].x'', ''string'', JStr ''(null)'')]"
  by (simp add: rows_eval)

end
